theory Spec2Isabelle
  imports Complex_Main
begin

section \<open>Parameters and boundary markers of main.cpp\<close>

text \<open>
  The file opens with a block of constants introduced as "the following parameters can be
  played with". They are collected in a record, so that statements can range over every
  setting; \<open>source_params\<close> holds the values written in the file. A C \<open>double\<close> is
  modelled as an exact \<open>real\<close>; the one rounding that is part of the model is that of the
  quotient \<open>FINAL_TIME / TAU\<close>, which fixes the number of time steps.
\<close>

record params =
  RE :: real
  VEL_INLET :: real
  STARTUP_TIME :: real
  TAU :: real
  FINAL_TIME :: real
  P_INIT_VEL :: int
  P_INIT_PRESSURE :: int
  H :: real

definition source_params :: params where
  "source_params =
     \<lparr>RE = 1000, VEL_INLET = 1, STARTUP_TIME = 1, TAU = 1 / 2, FINAL_TIME = 3000,
      P_INIT_VEL = 2, P_INIT_PRESSURE = 1, H = 10\<rparr>"

definition marker_bottom :: int where "marker_bottom = 1"
definition marker_right :: int where "marker_right = 2"
definition marker_top :: int where "marker_top = 3"
definition marker_left :: int where "marker_left = 4"
definition marker_obstacle :: int where "marker_obstacle = 5"

text \<open>The two classifications of a boundary marker used by the file (hermes2d.h).\<close>

datatype bc_type = BC_NONE | BC_ESSENTIAL

definition xvel_bc_type :: "int \<Rightarrow> bc_type" where
  "xvel_bc_type marker = (if marker = marker_right then BC_NONE else BC_ESSENTIAL)"

definition yvel_bc_type :: "int \<Rightarrow> bc_type" where
  "yvel_bc_type marker = (if marker = marker_right then BC_NONE else BC_ESSENTIAL)"

definition press_bc_type :: "int \<Rightarrow> bc_type" where
  "press_bc_type marker = BC_NONE"

text \<open>
  \<open>xvel_bc_value\<close> reads the global variable \<open>TIME\<close>; the model takes its current value
  as the argument \<open>time\<close>.
\<close>

definition xvel_bc_value :: "params \<Rightarrow> real \<Rightarrow> int \<Rightarrow> real \<Rightarrow> real \<Rightarrow> real" where
  "xvel_bc_value p time marker x y =
     (if marker = marker_left then
        (let val_y = VEL_INLET p * y * (H p - y) / (H p / 2) / (H p / 2)
         in if time \<le> STARTUP_TIME p then val_y * time / STARTUP_TIME p else val_y)
      else 0)"

text \<open>The inlet law in the words of the specification, for comparison with the code.\<close>

definition spec_profile :: "params \<Rightarrow> real \<Rightarrow> real" where
  "spec_profile p y = VEL_INLET p * y * (H p - y) / (H p / 2)\<^sup>2"

definition spec_inlet_value :: "params \<Rightarrow> real \<Rightarrow> real \<Rightarrow> real" where
  "spec_inlet_value p t y = spec_profile p y * min 1 (t / STARTUP_TIME p)"

section \<open>The library as seen from main.cpp\<close>

text \<open>
  main.cpp drives the hermes2d library and an embedded Python interpreter, neither of
  which is part of the file. What main reads from them is taken as a parameter: the
  record \<open>hermes2d\<close> below. The three spaces are indexed as in \<open>sys.set_spaces\<close>.
\<close>

datatype field = XVel | YVel | Press

text \<open>
  A space as main configures it: order, boundary classification and essential-value
  callback (the callback reads the global \<open>TIME\<close>, here its first argument), and the
  result of the last \<open>assign_dofs\<close>: first index, count, and the time at which the
  essential values were evaluated.
\<close>

record space =
  sp_order :: int
  bc_types :: "int \<Rightarrow> bc_type"
  bc_values :: "real \<Rightarrow> int \<Rightarrow> real \<Rightarrow> real \<Rightarrow> real"
  first_dof :: int
  num_dofs :: int
  bc_time :: real

text \<open>The arrays main fetches with \<open>get_matrix\<close> and \<open>get_rhs\<close> and hands to Python.\<close>

record linsys =
  Ap :: "int list"
  Ai :: "int list"
  Ax :: "real list"
  dim :: int
  rhs :: "real list"

text \<open>
  What \<open>x = spsolve(A, rhs)\<close> can do, seen from main: leave a solution in \<open>x\<close>, signal a
  failure (a singular or non-convergent system) and still return with some vector in
  \<open>x\<close>, or not return at all (an exception that nothing in main catches).
\<close>

datatype solve_result = Solved "real list" | SolveFailed "real list" | SolveRaised

fun returned_vector :: "solve_result \<Rightarrow> real list option" where
  "returned_vector (Solved X) = Some X"
| "returned_vector (SolveFailed X) = Some X"
| "returned_vector SolveRaised = None"

record 'f hermes2d =
  import_hermes2d :: int
  count_dofs :: "field \<Rightarrow> int \<Rightarrow> nat"
  set_zero :: 'f
  assemble :: "real \<Rightarrow> space \<Rightarrow> space \<Rightarrow> space \<Rightarrow> 'f \<Rightarrow> 'f \<Rightarrow> linsys option"
  spsolve :: "linsys \<Rightarrow> solve_result"
  set_fe_solution :: "field \<Rightarrow> space \<Rightarrow> real list \<Rightarrow> 'f"

text \<open>
  Modelled from the spec: \<open>Space::assign_dofs\<close>, which is library code. Section 4.1 gives
  \<open>assign_dofs(start_index) \<rightarrow> count\<close>: the space numbers its degrees of freedom from
  \<open>start_index\<close> on and returns how many there are; the count depends on the mesh and the
  order only (\<open>count_dofs\<close>). The call re-evaluates the time-dependent essential values,
  which is why main repeats it in every step.
\<close>

definition assign_dofs :: "'f hermes2d \<Rightarrow> real \<Rightarrow> field \<Rightarrow> space \<Rightarrow> int \<Rightarrow> space \<times> int" where
  "assign_dofs L time fld sp start =
     (let count = int (count_dofs L fld (sp_order sp))
      in (sp\<lparr>first_dof := start, num_dofs := count, bc_time := time\<rparr>, count))"

definition dof_range :: "space \<Rightarrow> int set" where
  "dof_range sp = {first_dof sp ..< first_dof sp + num_dofs sp}"

text \<open>
  Modelled from the spec: the dimension of the system a \<open>LinSystem\<close> assembles over its
  spaces, which is library code. Section 3: the sparse matrix has dimension = total DOFs,
  the sum of the per-field DOF counts, and the RHS vector the same length.
\<close>

definition sys_dimension :: "space list \<Rightarrow> int" where
  "sys_dimension sps = sum_list (map num_dofs sps)"

section \<open>The program state and the time loop\<close>

text \<open>
  The log is a ghost variable: it records, in program order, each call main makes that the
  claims speak about, with the iteration it belongs to (0 for the set-up before the loop)
  and the value the global \<open>TIME\<close> has at the call.
\<close>

datatype 'f call =
    Advance
  | AssignDofs field int int
  | Assemble 'f 'f
  | Solve linsys
  | Decode field 'f

record 'f event =
  ev_iter :: int
  ev_time :: real
  ev_call :: "'f call"

record 'f state =
  TIME :: real
  ndofs :: int
  xvel :: space
  yvel :: space
  press :: space
  xprev :: 'f
  yprev :: 'f
  trace :: "'f event list"

datatype error = ImportFailed | AssembleRaised | SolveDidNotReturn

definition emit :: "int \<Rightarrow> 'f call \<Rightarrow> 'f state \<Rightarrow> 'f state" where
  "emit i c s = s\<lparr>trace := trace s @ [\<lparr>ev_iter = i, ev_time = TIME s, ev_call = c\<rparr>]\<rparr>"

text \<open>
  \<open>ndofs = 0; ndofs += xvel.assign_dofs(ndofs); ndofs += yvel.assign_dofs(ndofs);
  ndofs += press.assign_dofs(ndofs);\<close>, written twice in main: before the loop and in it.
\<close>

definition assign_all :: "'f hermes2d \<Rightarrow> int \<Rightarrow> 'f state \<Rightarrow> 'f state" where
  "assign_all L i s =
     (let n0 = 0;
          (xv, c0) = assign_dofs L (TIME s) XVel (xvel s) n0;
          n1 = n0 + c0;
          (yv, c1) = assign_dofs L (TIME s) YVel (yvel s) n1;
          n2 = n1 + c1;
          (pr, c2) = assign_dofs L (TIME s) Press (press s) n2;
          n3 = n2 + c2
      in emit i (AssignDofs Press n2 c2)
           (emit i (AssignDofs YVel n1 c1)
             (emit i (AssignDofs XVel n0 c0)
               (s\<lparr>ndofs := n3, xvel := xv, yvel := yv, press := pr\<rparr>))))"

text \<open>
  One pass through the body of the \<open>for\<close> loop. The marshalling of the arrays into Python
  and the plotting commands carry no state of the loop and are left out; \<open>psln.set_zero\<close>
  before the assembly is overwritten by \<open>psln.set_fe_solution\<close>. An exception leaving
  \<open>sys.assemble()\<close> or the solve is caught nowhere in main: the run ends there, and the
  model returns the state reached.
\<close>

definition step :: "params \<Rightarrow> 'f hermes2d \<Rightarrow> int \<Rightarrow> 'f state \<Rightarrow> (error \<times> 'f state) + 'f state" where
  "step p L i s0 =
     (let s1 = emit i Advance (s0\<lparr>TIME := TIME s0 + TAU p\<rparr>);
          s2 = assign_all L i s1;
          s3 = emit i (Assemble (xprev s2) (yprev s2)) s2
      in case assemble L (TIME s2) (xvel s2) (yvel s2) (press s2) (xprev s2) (yprev s2) of
           None \<Rightarrow> Inl (AssembleRaised, s3)
         | Some sys \<Rightarrow>
             (let s4 = emit i (Solve sys) s3
              in case returned_vector (spsolve L sys) of
                   None \<Rightarrow> Inl (SolveDidNotReturn, s4)
                 | Some X \<Rightarrow>
                     (let xsln = set_fe_solution L XVel (xvel s4) X;
                          ysln = set_fe_solution L YVel (yvel s4) X;
                          psln = set_fe_solution L Press (press s4) X;
                          s5 = emit i (Decode Press psln)
                                 (emit i (Decode YVel ysln) (emit i (Decode XVel xsln) s4))
                      in Inr (s5\<lparr>xprev := xsln, yprev := ysln\<rparr>))))"

text \<open>\<open>for (int i = 1; i <= num_time_steps; i++)\<close>\<close>

function main_loop ::
  "params \<Rightarrow> 'f hermes2d \<Rightarrow> int \<Rightarrow> int \<Rightarrow> 'f state \<Rightarrow> (error \<times> 'f state) + 'f state" where
  "main_loop p L i n s =
     (if i \<le> n then
        (case step p L i s of
           Inl e \<Rightarrow> Inl e
         | Inr s' \<Rightarrow> main_loop p L (i + 1) n s')
      else Inr s)"
  by pat_completeness auto
termination
  by (relation "measure (\<lambda>(p, L, i, n, s). nat (n + 1 - i))") auto

declare main_loop.simps [simp del]

text \<open>
  \<open>int num_time_steps = FINAL_TIME / TAU;\<close>: the quotient of two \<open>double\<close>s is the exact
  quotient rounded to the nearest \<open>double\<close> (53 significant bits, ties to the even
  neighbour), and the conversion of a \<open>double\<close> to \<open>int\<close> drops the fractional part.
  The rounding can change the number of iterations, so it is part of the model:
  \<open>b64\<close> rounds a real number to binary64, for magnitudes in the normal range of the
  format (the quotient is taken to fit an \<open>int\<close>). Everywhere else a \<open>double\<close> is the
  real number it denotes; a statement about the value of \<open>TIME\<close> that needs the sums
  \<open>TIME += TAU\<close> to be free of rounding says so.
\<close>

definition round_even :: "real \<Rightarrow> int" where
  "round_even y =
     (let f = \<lfloor>y\<rfloor>; d = y - of_int f
      in if d < 1 / 2 then f else if 1 / 2 < d then f + 1 else if even f then f else f + 1)"

definition b64 :: "real \<Rightarrow> real" where
  "b64 x =
     (if x = 0 then 0
      else (let u = 2 powr (of_int \<lfloor>log 2 \<bar>x\<bar>\<rfloor> - 52)
            in of_int (round_even (x / u)) * u))"

definition double_to_int :: "real \<Rightarrow> int" where
  "double_to_int r = (if 0 \<le> r then \<lfloor>r\<rfloor> else \<lceil>r\<rceil>)"

definition num_time_steps :: "params \<Rightarrow> int" where
  "num_time_steps p = double_to_int (b64 (FINAL_TIME p / TAU p))"

text \<open>
  The spaces as main sets them up. \<open>yvel\<close> and \<open>press\<close> get no value callback: their
  essential value is the library's default, 0.
\<close>

definition new_space :: space where
  "new_space = \<lparr>sp_order = 0, bc_types = (\<lambda>marker. BC_NONE),
     bc_values = (\<lambda>time marker x y. 0), first_dof = 0, num_dofs = 0, bc_time = 0\<rparr>"

definition initial_state :: "params \<Rightarrow> 'f hermes2d \<Rightarrow> 'f state" where
  "initial_state p L =
     \<lparr>TIME = 0, ndofs = 0,
      xvel = new_space\<lparr>bc_types := xvel_bc_type, bc_values := xvel_bc_value p,
               sp_order := P_INIT_VEL p\<rparr>,
      yvel = new_space\<lparr>bc_types := yvel_bc_type, sp_order := P_INIT_VEL p\<rparr>,
      press = new_space\<lparr>bc_types := press_bc_type, sp_order := P_INIT_PRESSURE p\<rparr>,
      xprev = set_zero L, yprev = set_zero L, trace = []\<rparr>"

definition main :: "params \<Rightarrow> 'f hermes2d \<Rightarrow> (error \<times> 'f state) + 'f state" where
  "main p L =
     (if import_hermes2d L \<noteq> 0 then Inl (ImportFailed, initial_state p L)
      else main_loop p L 1 (num_time_steps p) (assign_all L 0 (initial_state p L)))"

text \<open>The state a run ends in, whether main returns or an exception ends it.\<close>

fun final_state :: "(error \<times> 'f state) + 'f state \<Rightarrow> 'f state" where
  "final_state (Inl (e, s)) = s"
| "final_state (Inr s) = s"

section \<open>Reading the log\<close>

definition stamp :: "int \<Rightarrow> real \<Rightarrow> 'f call \<Rightarrow> 'f event" where
  "stamp i t c = \<lparr>ev_iter = i, ev_time = t, ev_call = c\<rparr>"

text \<open>The calls logged for iteration \<open>i\<close>, in program order.\<close>

definition calls_in :: "int \<Rightarrow> 'f event list \<Rightarrow> 'f call list" where
  "calls_in i tr = map ev_call (filter (\<lambda>e. ev_iter e = i) tr)"

datatype kind = KAdvance | KAssign field | KAssemble | KSolve | KDecode field

fun kind_of :: "'f call \<Rightarrow> kind" where
  "kind_of Advance = KAdvance"
| "kind_of (AssignDofs f start count) = KAssign f"
| "kind_of (Assemble xp yp) = KAssemble"
| "kind_of (Solve sys) = KSolve"
| "kind_of (Decode f u) = KDecode f"

definition count_calls :: "kind \<Rightarrow> 'f event list \<Rightarrow> nat" where
  "count_calls k tr = length (filter (\<lambda>e. kind_of (ev_call e) = k) tr)"

definition setup_kinds :: "kind list" where
  "setup_kinds = [KAssign XVel, KAssign YVel, KAssign Press]"

definition iteration_kinds :: "kind list" where
  "iteration_kinds =
     KAdvance # setup_kinds @ [KAssemble, KSolve, KDecode XVel, KDecode YVel, KDecode Press]"

text \<open>The three calls of \<open>assign_all\<close>, as they appear in the log.\<close>

definition assign_calls :: "'f hermes2d \<Rightarrow> 'f state \<Rightarrow> 'f call list" where
  "assign_calls L s =
     (let c0 = int (count_dofs L XVel (sp_order (xvel s)));
          c1 = int (count_dofs L YVel (sp_order (yvel s)));
          c2 = int (count_dofs L Press (sp_order (press s)))
      in [AssignDofs XVel 0 c0, AssignDofs YVel c0 c1, AssignDofs Press (c0 + c1) c2])"

section \<open>A small library instance\<close>

text \<open>
  A stand-in for the library on which runs can be computed: two degrees of freedom for
  each velocity component and one for the pressure, a right-hand side that repeats the
  current time, a solve that hands the right-hand side back wrapped by \<open>outcome\<close>, and a
  decoding that cuts the window of a space out of the solution vector. A solution is its
  coefficient list.
\<close>

definition example_lib :: "(real list \<Rightarrow> solve_result) \<Rightarrow> real list hermes2d" where
  "example_lib outcome =
     \<lparr>import_hermes2d = 0,
      count_dofs = (\<lambda>f k. case f of XVel \<Rightarrow> 2 | YVel \<Rightarrow> 2 | Press \<Rightarrow> 1),
      set_zero = [0, 0],
      assemble = (\<lambda>t sx sy sp xp yp.
         Some \<lparr>Ap = [], Ai = [], Ax = [], dim = 5, rhs = [t, t, t, t, t]\<rparr>),
      spsolve = (\<lambda>sys. outcome (rhs sys)),
      set_fe_solution = (\<lambda>f sp X. take (nat (num_dofs sp)) (drop (nat (first_dof sp)) X))\<rparr>"

text \<open>The parameters of the file, with the final time cut down to two steps.\<close>

definition two_step_params :: params where
  "two_step_params = source_params\<lparr>FINAL_TIME := 1\<rparr>"

text \<open>Parameters whose final time is not a multiple of the step.\<close>

definition uneven_params :: params where
  "uneven_params = source_params\<lparr>FINAL_TIME := 1, TAU := 3 / 4\<rparr>"

text \<open>The same library with a solve that never returns.\<close>

definition raising_lib :: "real list hermes2d" where
  "raising_lib = example_lib (\<lambda>v. SolveRaised)"

text \<open>The calls the stand-in library logs: for the set-up, and for one iteration.\<close>

definition example_setup_calls :: "real list call list" where
  "example_setup_calls = [AssignDofs XVel 0 2, AssignDofs YVel 2 2, AssignDofs Press 4 1]"

definition example_calls :: "real \<Rightarrow> real list \<Rightarrow> real list \<Rightarrow> real list call list" where
  "example_calls t xp yp =
     Advance # example_setup_calls @
       [Assemble xp yp, Solve \<lparr>Ap = [], Ai = [], Ax = [], dim = 5, rhs = [t, t, t, t, t]\<rparr>,
        Decode XVel [t, t], Decode YVel [t, t], Decode Press [t]]"

section \<open>Invariants of the time loop\<close>

abbreviation final_trace :: "params \<Rightarrow> 'f hermes2d \<Rightarrow> 'f event list" where
  "final_trace p L \<equiv> trace (final_state (main p L))"

text \<open>
  Every logged call carries the time of its iteration, the log is in iteration order, and
  the first call of an iteration is its only \<open>Advance\<close>.
\<close>

definition stamped :: "params \<Rightarrow> 'f event list \<Rightarrow> bool" where
  "stamped p tr \<longleftrightarrow>
     (\<forall>e\<in>set tr. ev_time e = of_int (ev_iter e) * TAU p) \<and>
     sorted (map ev_iter tr) \<and>
     (\<forall>i. 1 \<le> i \<and> calls_in i tr \<noteq> [] \<longrightarrow>
        hd (calls_in i tr) = Advance \<and> Advance \<notin> set (tl (calls_in i tr)))"

text \<open>Before iteration \<open>j\<close>: the clock stands at \<open>(j - 1) * TAU\<close>.\<close>

definition clock :: "params \<Rightarrow> int \<Rightarrow> 'f state \<Rightarrow> bool" where
  "clock p j s \<longleftrightarrow> 1 \<le> j \<and> TIME s = of_int (j - 1) * TAU p \<and> (\<forall>e\<in>set (trace s). ev_iter e < j) \<and> stamped p (trace s)"

text \<open>Before iteration \<open>j\<close>: iterations \<open>1 .. j - 1\<close> are logged in full, and nothing else.\<close>

definition shaped :: "params \<Rightarrow> int \<Rightarrow> 'f state \<Rightarrow> bool" where
  "shaped p j s \<longleftrightarrow>
     1 \<le> j \<and> TIME s = of_int (j - 1) * TAU p \<and>
     (\<forall>e\<in>set (trace s). ev_iter e < j) \<and>
     (\<forall>i. map kind_of (calls_in i (trace s)) =
        (if 1 \<le> i \<and> i < j then iteration_kinds else if i = 0 then setup_kinds else [])) \<and>
     (\<forall>k\<in>{KAdvance, KAssemble, KSolve, KDecode XVel, KDecode YVel, KDecode Press}.
        count_calls k (trace s) = nat (j - 1))"

text \<open>
  Each assembly is logged with the fields decoded one iteration earlier (the zero fields
  in iteration 1), each iteration decodes a field at most once, and each system handed to
  the solve was assembled from the anchor logged in the same iteration.
\<close>

definition anchored :: "'f hermes2d \<Rightarrow> 'f event list \<Rightarrow> bool" where
  "anchored L tr \<longleftrightarrow>
     (\<forall>e\<in>set tr. \<forall>xp yp. ev_call e = Assemble xp yp \<longrightarrow>
        (ev_iter e = 1 \<longrightarrow> xp = set_zero L \<and> yp = set_zero L) \<and>
        (ev_iter e \<noteq> 1 \<longrightarrow>
           Decode XVel xp \<in> set (calls_in (ev_iter e - 1) tr) \<and>
           Decode YVel yp \<in> set (calls_in (ev_iter e - 1) tr))) \<and>
     (\<forall>i f u v. Decode f u \<in> set (calls_in i tr) \<and> Decode f v \<in> set (calls_in i tr) \<longrightarrow> u = v) \<and>
     (\<forall>e\<in>set tr. \<forall>sys. ev_call e = Solve sys \<longrightarrow>
        (\<exists>xp yp sx sy sp. Assemble xp yp \<in> set (calls_in (ev_iter e) tr) \<and>
           assemble L (ev_time e) sx sy sp xp yp = Some sys))"

text \<open>Before iteration \<open>j\<close>: \<open>xprev\<close>, \<open>yprev\<close> are what iteration \<open>j - 1\<close> decoded.\<close>

definition feeds :: "'f hermes2d \<Rightarrow> int \<Rightarrow> 'f state \<Rightarrow> bool" where
  "feeds L j s \<longleftrightarrow>
     1 \<le> j \<and> (\<forall>e\<in>set (trace s). ev_iter e < j) \<and> anchored L (trace s) \<and>
     (j = 1 \<longrightarrow> xprev s = set_zero L \<and> yprev s = set_zero L) \<and>
     (j \<noteq> 1 \<longrightarrow> Decode XVel (xprev s) \<in> set (calls_in (j - 1) (trace s)) \<and>
                Decode YVel (yprev s) \<in> set (calls_in (j - 1) (trace s)))"

section \<open>The weak formulation of main.cpp\<close>

text \<open>
  The forms of main.cpp call integrals of hermes2d (\<open>int_u_v\<close>, \<open>int_grad_u_grad_v\<close>,
  ...) on shape functions and reference maps. The integrals are a parameter; \<open>'f\<close> stands
  for \<open>RealFunction\<close> (a \<open>Solution\<close> is one) and \<open>'r\<close> for \<open>RefMap\<close>. The forms read
  the globals \<open>xprev\<close>, \<open>yprev\<close>, here the arguments \<open>xp\<close>, \<open>yp\<close>.
\<close>

record ('f, 'r) integrals =
  int_grad_u_grad_v :: "'f \<Rightarrow> 'f \<Rightarrow> 'r \<Rightarrow> 'r \<Rightarrow> real"
  int_u_v :: "'f \<Rightarrow> 'f \<Rightarrow> 'r \<Rightarrow> 'r \<Rightarrow> real"
  int_w_nabla_u_v :: "'f \<Rightarrow> 'f \<Rightarrow> 'f \<Rightarrow> 'f \<Rightarrow> 'r \<Rightarrow> 'r \<Rightarrow> real"
  int_u_dvdx :: "'f \<Rightarrow> 'f \<Rightarrow> 'r \<Rightarrow> 'r \<Rightarrow> real"
  int_u_dvdy :: "'f \<Rightarrow> 'f \<Rightarrow> 'r \<Rightarrow> 'r \<Rightarrow> real"
  get_refmap :: "'f \<Rightarrow> 'r"

definition bilinear_form_sym_0_0_1_1 ::
  "params \<Rightarrow> ('f, 'r) integrals \<Rightarrow> 'f \<Rightarrow> 'f \<Rightarrow> 'r \<Rightarrow> 'r \<Rightarrow> real" where
  "bilinear_form_sym_0_0_1_1 p I fu fv ru rv =
     int_grad_u_grad_v I fu fv ru rv / RE p + int_u_v I fu fv ru rv / TAU p"

definition bilinear_form_unsym_0_0_1_1 ::
  "('f, 'r) integrals \<Rightarrow> 'f \<Rightarrow> 'f \<Rightarrow> 'f \<Rightarrow> 'f \<Rightarrow> 'r \<Rightarrow> 'r \<Rightarrow> real" where
  "bilinear_form_unsym_0_0_1_1 I xp yp fu fv ru rv = int_w_nabla_u_v I xp yp fu fv ru rv"

definition bilinear_form_unsym_0_2 :: "('f, 'r) integrals \<Rightarrow> 'f \<Rightarrow> 'f \<Rightarrow> 'r \<Rightarrow> 'r \<Rightarrow> real" where
  "bilinear_form_unsym_0_2 I fp fv rp rv = - int_u_dvdx I fp fv rp rv"

definition bilinear_form_unsym_1_2 :: "('f, 'r) integrals \<Rightarrow> 'f \<Rightarrow> 'f \<Rightarrow> 'r \<Rightarrow> 'r \<Rightarrow> real" where
  "bilinear_form_unsym_1_2 I fp fv rp rv = - int_u_dvdy I fp fv rp rv"

definition linear_form_0 :: "params \<Rightarrow> ('f, 'r) integrals \<Rightarrow> 'f \<Rightarrow> 'f \<Rightarrow> 'r \<Rightarrow> real" where
  "linear_form_0 p I xp fv rv = int_u_v I xp fv (get_refmap I xp) rv / TAU p"

definition linear_form_1 :: "params \<Rightarrow> ('f, 'r) integrals \<Rightarrow> 'f \<Rightarrow> 'f \<Rightarrow> 'r \<Rightarrow> real" where
  "linear_form_1 p I yp fv rv = int_u_v I yp fv (get_refmap I yp) rv / TAU p"

text \<open>The symmetry flags of hermes2d, and a weak form as the list of its registered terms.\<close>

datatype sym_flag = ANTISYM | UNSYM | SYM

record ('f, 'r) biform =
  bf_i :: nat
  bf_j :: nat
  bf_fn :: "'f \<Rightarrow> 'f \<Rightarrow> 'r \<Rightarrow> 'r \<Rightarrow> real"
  bf_sym :: sym_flag

record ('f, 'r) liform =
  lf_i :: nat
  lf_fn :: "'f \<Rightarrow> 'r \<Rightarrow> real"

record ('f, 'r) weak_form =
  neq :: nat
  biforms :: "('f, 'r) biform list"
  liforms :: "('f, 'r) liform list"

definition WeakForm :: "nat \<Rightarrow> ('f, 'r) weak_form" where
  "WeakForm n = \<lparr>neq = n, biforms = [], liforms = []\<rparr>"

definition add_biform ::
  "nat \<Rightarrow> nat \<Rightarrow> ('f \<Rightarrow> 'f \<Rightarrow> 'r \<Rightarrow> 'r \<Rightarrow> real) \<Rightarrow> sym_flag \<Rightarrow> ('f, 'r) weak_form \<Rightarrow> ('f, 'r) weak_form" where
  "add_biform i j fn flag w =
     w\<lparr>biforms := biforms w @ [\<lparr>bf_i = i, bf_j = j, bf_fn = fn, bf_sym = flag\<rparr>]\<rparr>"

definition add_liform :: "nat \<Rightarrow> ('f \<Rightarrow> 'r \<Rightarrow> real) \<Rightarrow> ('f, 'r) weak_form \<Rightarrow> ('f, 'r) weak_form" where
  "add_liform i fn w = w\<lparr>liforms := liforms w @ [\<lparr>lf_i = i, lf_fn = fn\<rparr>]\<rparr>"

text \<open>The registrations of main.cpp, in the order of the file (\<open>WeakForm wf(3)\<close> onwards).\<close>

definition main_weak_form :: "params \<Rightarrow> ('f, 'r) integrals \<Rightarrow> 'f \<Rightarrow> 'f \<Rightarrow> ('f, 'r) weak_form" where
  "main_weak_form p I xp yp =
     (add_liform 1 (linear_form_1 p I yp)
     (add_liform 0 (linear_form_0 p I xp)
     (add_biform 1 2 (bilinear_form_unsym_1_2 I) ANTISYM
     (add_biform 0 2 (bilinear_form_unsym_0_2 I) ANTISYM
     (add_biform 1 1 (bilinear_form_unsym_0_0_1_1 I xp yp) UNSYM
     (add_biform 1 1 (bilinear_form_sym_0_0_1_1 p I) SYM
     (add_biform 0 0 (bilinear_form_unsym_0_0_1_1 I xp yp) UNSYM
     (add_biform 0 0 (bilinear_form_sym_0_0_1_1 p I) SYM
     (WeakForm 3)))))))))"

section \<open>The assembly of the matrix\<close>

text \<open>
  Modelled from the spec: the matrix part of \<open>LinSystem::assemble\<close>, which is library code.
  Section 4.3: for every mesh element and every declared term the local contribution is
  computed and scatter-added into the global matrix at the global row and column of the
  shape functions; contributions accumulate additively; a symmetric term computes one
  triangular block and mirrors it exactly; an antisymmetric term computes both blocks
  with exactly opposite sign. An element gives, for each field, its shape functions with
  their global indices, and its reference map. The matrix is a function of (row, column);
  its storage format is not modelled.
\<close>

record ('f, 'r) element =
  el_shapes :: "nat \<Rightarrow> (int \<times> 'f) list"
  el_refmap :: 'r

type_synonym matrix = "int \<times> int \<Rightarrow> real"

definition add_entry :: "int \<Rightarrow> int \<Rightarrow> real \<Rightarrow> matrix \<Rightarrow> matrix" where
  "add_entry i j v A = A((i, j) := A (i, j) + v)"

text \<open>
  One computed value \<open>v\<close> for row \<open>gi\<close> and column \<open>gj\<close>, and its mirror image with
  factor \<open>c\<close> when the term is tagged.
\<close>

definition add_pair :: "real option \<Rightarrow> int \<Rightarrow> int \<Rightarrow> real \<Rightarrow> matrix \<Rightarrow> matrix" where
  "add_pair mirror gi gj v A =
     (case mirror of
        None \<Rightarrow> add_entry gi gj v A
      | Some c \<Rightarrow> add_entry gj gi (c * v) (add_entry gi gj v A))"

text \<open>A full block: every row shape function against every column shape function.\<close>

definition asm_block ::
  "real option \<Rightarrow> ('f \<Rightarrow> 'f \<Rightarrow> 'r \<Rightarrow> 'r \<Rightarrow> real) \<Rightarrow> 'r \<Rightarrow> (int \<times> 'f) list \<Rightarrow> (int \<times> 'f) list
     \<Rightarrow> matrix \<Rightarrow> matrix" where
  "asm_block mirror fn r rows cols A =
     fold (\<lambda>(gi, fv). fold (\<lambda>(gj, fu). add_pair mirror gi gj (fn fu fv r r)) cols) rows A"

text \<open>
  A triangular block on the diagonal: each shape function against itself and against the
  later ones, the off-diagonal values mirrored.
\<close>

fun asm_tri ::
  "('f \<Rightarrow> 'f \<Rightarrow> 'r \<Rightarrow> 'r \<Rightarrow> real) \<Rightarrow> 'r \<Rightarrow> (int \<times> 'f) list \<Rightarrow> matrix \<Rightarrow> matrix" where
  "asm_tri fn r [] A = A"
| "asm_tri fn r ((g, f) # later) A =
     asm_tri fn r later
       (fold (\<lambda>(g', f'). add_pair (Some 1) g' g (fn f f' r r)) later
          (add_entry g g (fn f f r r) A))"

definition asm_term :: "('f, 'r) element \<Rightarrow> ('f, 'r) biform \<Rightarrow> matrix \<Rightarrow> matrix" where
  "asm_term el t A =
     (let rows = el_shapes el (bf_i t); cols = el_shapes el (bf_j t); r = el_refmap el
      in case bf_sym t of
           UNSYM \<Rightarrow> asm_block None (bf_fn t) r rows cols A
         | SYM \<Rightarrow> (if bf_i t = bf_j t then asm_tri (bf_fn t) r rows A
                    else asm_block (Some 1) (bf_fn t) r rows cols A)
         | ANTISYM \<Rightarrow> asm_block (Some (- 1)) (bf_fn t) r rows cols A)"

definition assemble_matrix :: "('f, 'r) biform list \<Rightarrow> ('f, 'r) element list \<Rightarrow> matrix" where
  "assemble_matrix ts els = fold (\<lambda>el A. fold (asm_term el) ts A) els (\<lambda>ij. 0)"

text \<open>The contribution of a single term to the matrix.\<close>

definition term_matrix :: "('f, 'r) biform \<Rightarrow> ('f, 'r) element list \<Rightarrow> matrix" where
  "term_matrix t els = fold (\<lambda>el. asm_term el t) els (\<lambda>ij. 0)"

definition symmetric :: "matrix \<Rightarrow> bool" where
  "symmetric A \<longleftrightarrow> (\<forall>i j. A (i, j) = A (j, i))"

definition skew :: "matrix \<Rightarrow> bool" where
  "skew A \<longleftrightarrow> (\<forall>i j. A (j, i) = - A (i, j))"

text \<open>An assembly step adds to the matrix an amount that does not depend on the matrix.\<close>

definition shifted :: "(matrix \<Rightarrow> matrix) \<Rightarrow> bool" where
  "shifted f \<longleftrightarrow> (\<forall>A ij. f A ij = A ij + f (\<lambda>ij. 0) ij)"

text \<open>
  Integrals and one element to compute with: a function is a number, the integrals are
  products.
\<close>

definition example_integrals :: "(real, unit) integrals" where
  "example_integrals =
     \<lparr>int_grad_u_grad_v = (\<lambda>u v ru rv. 3 * u * v),
      int_u_v = (\<lambda>u v ru rv. u * v),
      int_w_nabla_u_v = (\<lambda>w1 w2 u v ru rv. (w1 + w2) * u * v),
      int_u_dvdx = (\<lambda>u v ru rv. u * v),
      int_u_dvdy = (\<lambda>u v ru rv. 2 * u * v),
      get_refmap = (\<lambda>u. ())\<rparr>"

definition example_element :: "(real, unit) element" where
  "example_element =
     \<lparr>el_shapes = (\<lambda>k. if k = 0 then [(0, 1), (1, 2)] else if k = 1 then [(2, 1), (3, 2)]
                        else if k = 2 then [(4, 1)] else []),
      el_refmap = ()\<rparr>"

section \<open>The assembly of the right-hand side, and the library as a whole\<close>

text \<open>
  Modelled from the spec: the right-hand side part of \<open>LinSystem::assemble\<close>, which is
  library code. Section 4.3: for every mesh element and every declared linear term the
  local contribution is scatter-added into the RHS at the global row of the shape function.
\<close>

type_synonym vector = "int \<Rightarrow> real"

definition add_rhs :: "int \<Rightarrow> real \<Rightarrow> vector \<Rightarrow> vector" where
  "add_rhs i v b = b(i := b i + v)"

definition asm_liform :: "('f, 'r) element \<Rightarrow> ('f, 'r) liform \<Rightarrow> vector \<Rightarrow> vector" where
  "asm_liform el l b =
     fold (\<lambda>(gi, fv). add_rhs gi (lf_fn l fv (el_refmap el))) (el_shapes el (lf_i l)) b"

definition assemble_rhs :: "('f, 'r) liform list \<Rightarrow> ('f, 'r) element list \<Rightarrow> vector" where
  "assemble_rhs ls els = fold (\<lambda>el b. fold (asm_liform el) ls b) els (\<lambda>i. 0)"

text \<open>
  What remains outside: the integrals, the elements of the mesh with the numbering the
  spaces give them, the storage of the matrix in compressed form, the number of degrees of
  freedom of a space, the zero field, the external solve and the decoding of a solution
  vector into a field.
\<close>

record ('f, 'r) services =
  sv_integrals :: "('f, 'r) integrals"
  sv_elements :: "space \<Rightarrow> space \<Rightarrow> space \<Rightarrow> ('f, 'r) element list"
  sv_store :: "matrix \<Rightarrow> int \<Rightarrow> int list \<times> int list \<times> real list"
  sv_count :: "field \<Rightarrow> int \<Rightarrow> nat"
  sv_zero :: 'f
  sv_solve :: "linsys \<Rightarrow> solve_result"
  sv_decode :: "field \<Rightarrow> space \<Rightarrow> real list \<Rightarrow> 'f"

text \<open>
  Modelled from the spec: \<open>sys.assemble()\<close> as a whole. It assembles matrix and RHS of
  the weak form main.cpp registers, over the spaces set with \<open>sys.set_spaces\<close>, reading
  the current \<open>xprev\<close>, \<open>yprev\<close>; the dimension is the total number of degrees of
  freedom; a term referencing a field with no assigned degrees of freedom is an
  AssemblyError (section 4.3), here \<open>None\<close>.
\<close>

definition spec_assemble ::
  "params \<Rightarrow> ('f, 'r) services \<Rightarrow> real \<Rightarrow> space \<Rightarrow> space \<Rightarrow> space \<Rightarrow> 'f \<Rightarrow> 'f \<Rightarrow> linsys option" where
  "spec_assemble p S time sx sy sp xp yp =
     (if num_dofs sx \<le> 0 \<or> num_dofs sy \<le> 0 \<or> num_dofs sp \<le> 0 then None
      else
        (let w = main_weak_form p (sv_integrals S) xp yp;
             els = sv_elements S sx sy sp;
             n = sys_dimension [sx, sy, sp];
             A = assemble_matrix (biforms w) els;
             b = assemble_rhs (liforms w) els;
             (ap, ai, ax) = sv_store S A n
         in Some \<lparr>Ap = ap, Ai = ai, Ax = ax, dim = n, rhs = map b [0 .. n - 1]\<rparr>))"

definition spec_library :: "params \<Rightarrow> ('f, 'r) services \<Rightarrow> 'f hermes2d" where
  "spec_library p S =
     \<lparr>import_hermes2d = 0, count_dofs = sv_count S, set_zero = sv_zero S,
      assemble = spec_assemble p S, spsolve = sv_solve S, set_fe_solution = sv_decode S\<rparr>"

text \<open>The log of a run at rest: every system solved has a zero RHS, every decoded field is zero.\<close>

definition at_rest :: "('f, 'r) services \<Rightarrow> 'f event list \<Rightarrow> bool" where
  "at_rest S tr \<longleftrightarrow>
     (\<forall>e\<in>set tr. \<forall>sys. ev_call e = Solve sys \<longrightarrow> (\<forall>b\<in>set (rhs sys). b = 0)) \<and>
     (\<forall>e\<in>set tr. \<forall>f u. ev_call e = Decode f u \<longrightarrow> u = sv_zero S)"

definition resting :: "('f, 'r) services \<Rightarrow> 'f state \<Rightarrow> bool" where
  "resting S s \<longleftrightarrow>
     xprev s = sv_zero S \<and> yprev s = sv_zero S \<and>
     (\<forall>t m x y. bc_values (xvel s) t m x y = 0) \<and>
     (\<forall>t m x y. bc_values (yvel s) t m x y = 0) \<and>
     (\<forall>t m x y. bc_values (press s) t m x y = 0) \<and>
     at_rest S (trace s)"

text \<open>
  Services to compute with, on the integrals and the element above: a field is a number,
  the solve hands the RHS back, the decoding sums the coefficient window of the space.
  \<open>rest_params\<close> are the two-step parameters with the inlet velocity set to 0.
\<close>

definition rest_params :: params where
  "rest_params = two_step_params\<lparr>VEL_INLET := 0\<rparr>"

definition example_services :: "(real, unit) services" where
  "example_services =
     \<lparr>sv_integrals = example_integrals,
      sv_elements = (\<lambda>sx sy sp. [example_element]),
      sv_store = (\<lambda>A n. ([], [], [])),
      sv_count = (\<lambda>f k. case f of XVel \<Rightarrow> 2 | YVel \<Rightarrow> 2 | Press \<Rightarrow> 1),
      sv_zero = 0,
      sv_solve = (\<lambda>sys. Solved (rhs sys)),
      sv_decode = (\<lambda>f sp X. sum_list (take (nat (num_dofs sp)) (drop (nat (first_dof sp)) X)))\<rparr>"

text \<open>
  A second set of services, to see the anchor at work: the matrix is stored with all its
  entries, column after column (compressed columns that keep the zeros), and the solve
  returns the vector of ones whatever the system, so that the decoded velocities are not
  zero.
\<close>

definition dense_store :: "matrix \<Rightarrow> int \<Rightarrow> int list \<times> int list \<times> real list" where
  "dense_store A n =
     (map (\<lambda>j. j * n) [0 .. n],
      concat (map (\<lambda>j. [0 .. n - 1]) [0 .. n - 1]),
      concat (map (\<lambda>j. map (\<lambda>i. A (i, j)) [0 .. n - 1]) [0 .. n - 1]))"

definition driven_services :: "(real, unit) services" where
  "driven_services =
     example_services\<lparr>sv_store := dense_store, sv_solve := (\<lambda>sys. Solved [1, 1, 1, 1, 1])\<rparr>"

section \<open>Boundary values\<close>

lemma xvel_bc_value_inlet:
  assumes "0 < STARTUP_TIME p"
  shows "xvel_bc_value p t marker_left x y = spec_inlet_value p t y"
proof (cases "t \<le> STARTUP_TIME p")
  case True
  with assms have "t / STARTUP_TIME p \<le> 1" by simp
  then have "min 1 (t / STARTUP_TIME p) = t / STARTUP_TIME p" by simp
  with True show ?thesis
    by (simp add: xvel_bc_value_def spec_inlet_value_def spec_profile_def power2_eq_square)
next
  case False
  with assms have "1 < t / STARTUP_TIME p" by simp
  then have "min 1 (t / STARTUP_TIME p) = 1" by simp
  with False show ?thesis
    by (simp add: xvel_bc_value_def spec_inlet_value_def spec_profile_def power2_eq_square)
qed

text \<open>
  Claim C1. At the inlet marker the essential x-velocity is
  \<open>profile(y) * min(1, t / ramp_time)\<close> with
  \<open>profile(y) = inlet_velocity * y * (H - y) / (H/2)\<^sup>2\<close>, for every time and every
  coordinate with \<open>y\<close> in \<open>[0, H]\<close> (the ramp time and the height being positive, as
  the configuration requires). With the values of the file (\<open>H = 10\<close>, inlet velocity 1,
  ramp time 1) the value at \<open>t = 0.5\<close>, \<open>y = 5\<close> is \<open>0.5\<close>, and from \<open>t = 1\<close> on the
  value is the steady profile.
\<close>

theorem inlet_value_follows_ramped_profile:
  "(0 < STARTUP_TIME p \<and> 0 < H p \<and> 0 \<le> y \<and> y \<le> H p \<longrightarrow>
      xvel_bc_value p t marker_left x y = spec_profile p y * min 1 (t / STARTUP_TIME p))
   \<and> xvel_bc_value source_params (1 / 2) marker_left x 5 = 1 / 2
   \<and> (1 \<le> t \<longrightarrow> xvel_bc_value source_params t marker_left x y = spec_profile source_params y)"
proof (intro conjI impI)
  assume "0 < STARTUP_TIME p \<and> 0 < H p \<and> 0 \<le> y \<and> y \<le> H p"
  then show "xvel_bc_value p t marker_left x y = spec_profile p y * min 1 (t / STARTUP_TIME p)"
    using xvel_bc_value_inlet [of p t x y] by (simp add: spec_inlet_value_def)
next
  show "xvel_bc_value source_params (1 / 2) marker_left x 5 = 1 / 2"
    by (simp add: xvel_bc_value_def source_params_def)
next
  assume "1 \<le> t"
  then have "min 1 (t / STARTUP_TIME source_params) = 1"
    by (simp add: source_params_def)
  then show "xvel_bc_value source_params t marker_left x y = spec_profile source_params y"
    using xvel_bc_value_inlet [of source_params t x y]
    by (simp add: spec_inlet_value_def source_params_def)
qed

theorem inlet_value_follows_ramped_profile_witness:
  "(0 < STARTUP_TIME source_params \<and> 0 < H source_params \<and> (0::real) \<le> 5 \<and> 5 \<le> H source_params)
   \<and> xvel_bc_value source_params (1 / 4) marker_left 0 5 = 1 / 4
   \<and> spec_profile source_params 5 * min 1 ((1 / 4) / STARTUP_TIME source_params) = 1 / 4
   \<and> (1::real) \<le> 2
   \<and> xvel_bc_value source_params 2 marker_left 0 5 = 1
   \<and> spec_profile source_params 5 = 1"
  using inlet_value_follows_ramped_profile [of source_params 5 "1 / 4" 0]
    inlet_value_follows_ramped_profile [of source_params 5 2 0]
  by (simp add: source_params_def spec_profile_def)

text \<open>
  Claim C10. For every marker other than the inlet marker the essential x-velocity is
  exactly 0, at every time (also during the ramp) and every coordinate.
\<close>

theorem no_slip_value_is_zero:
  "marker \<noteq> marker_left \<Longrightarrow> xvel_bc_value p t marker x y = 0"
  by (simp add: xvel_bc_value_def)

theorem no_slip_value_is_zero_witness:
  "marker_obstacle \<noteq> marker_left \<and> xvel_bc_value source_params (1 / 2) marker_obstacle 3 5 = 0"
  using no_slip_value_is_zero [of marker_obstacle source_params "1 / 2" 3 5]
  by (simp add: marker_obstacle_def marker_left_def)

section \<open>Basic facts about the model\<close>

lemma emit_simps [simp]:
  "TIME (emit i c s) = TIME s" "ndofs (emit i c s) = ndofs s"
  "xvel (emit i c s) = xvel s" "yvel (emit i c s) = yvel s" "press (emit i c s) = press s"
  "xprev (emit i c s) = xprev s" "yprev (emit i c s) = yprev s"
  "trace (emit i c s) = trace s @ [stamp i (TIME s) c]"
  by (simp_all add: emit_def stamp_def)

lemma assign_all_simps [simp]:
  "TIME (assign_all L i s) = TIME s"
  "xprev (assign_all L i s) = xprev s" "yprev (assign_all L i s) = yprev s"
  "trace (assign_all L i s) = trace s @ map (stamp i (TIME s)) (assign_calls L s)"
  "sp_order (xvel (assign_all L i s)) = sp_order (xvel s)"
  "sp_order (yvel (assign_all L i s)) = sp_order (yvel s)"
  "sp_order (press (assign_all L i s)) = sp_order (press s)"
  by (simp_all add: assign_all_def assign_dofs_def Let_def assign_calls_def)

lemma returned_vector_None [simp]: "returned_vector r = None \<longleftrightarrow> r = SolveRaised"
  by (cases r) auto

lemma step_Inr:
  assumes "step p L i s = Inr s'"
  shows "\<exists>sys X ps. 
      assemble L (TIME s + TAU p) (xvel s') (yvel s') (press s') (xprev s) (yprev s) = Some sys
    \<and> returned_vector (spsolve L sys) = Some X
    \<and> xprev s' = set_fe_solution L XVel (xvel s') X
    \<and> yprev s' = set_fe_solution L YVel (yvel s') X
    \<and> TIME s' = TIME s + TAU p
    \<and> sp_order (xvel s') = sp_order (xvel s) \<and> sp_order (yvel s') = sp_order (yvel s)
    \<and> sp_order (press s') = sp_order (press s)
    \<and> trace s' = trace s @ map (stamp i (TIME s + TAU p))
        (Advance # assign_calls L s @ [Assemble (xprev s) (yprev s), Solve sys,
           Decode XVel (xprev s'), Decode YVel (yprev s'), Decode Press ps])"
  using assms
  by (auto simp: step_def Let_def assign_calls_def split: option.splits)

lemma step_Inl:
  assumes "step p L i s = Inl (e, s')"
  shows "TIME s' = TIME s + TAU p \<and> xprev s' = xprev s \<and> yprev s' = yprev s \<and>
    (e = AssembleRaised \<and>
       assemble L (TIME s + TAU p) (xvel s') (yvel s') (press s') (xprev s) (yprev s) = None \<and>
       trace s' = trace s @ map (stamp i (TIME s + TAU p))
         (Advance # assign_calls L s @ [Assemble (xprev s) (yprev s)])
     \<or> (\<exists>sys. e = SolveDidNotReturn \<and>
       assemble L (TIME s + TAU p) (xvel s') (yvel s') (press s') (xprev s) (yprev s) = Some sys \<and>
       spsolve L sys = SolveRaised \<and>
       trace s' = trace s @ map (stamp i (TIME s + TAU p))
         (Advance # assign_calls L s @ [Assemble (xprev s) (yprev s), Solve sys])))"
  using assms
  by (auto simp: step_def Let_def assign_calls_def split: option.splits)

lemma step_Inl_trace:
  assumes "step p L i s = Inl (e, s')"
  obtains cs where
    "trace s' = trace s @ map (stamp i (TIME s + TAU p))
        (Advance # assign_calls L s @ Assemble (xprev s) (yprev s) # cs)"
    and "cs = [] \<or> (\<exists>sys. cs = [Solve sys] \<and>
       assemble L (TIME s + TAU p) (xvel s') (yvel s') (press s') (xprev s) (yprev s) = Some sys)"
    and "TIME s' = TIME s + TAU p"
proof -
  from step_Inl[OF assms] have T: "TIME s' = TIME s + TAU p" by blast
  from step_Inl[OF assms] consider
    (asm) "trace s' = trace s @ map (stamp i (TIME s + TAU p))
         (Advance # assign_calls L s @ [Assemble (xprev s) (yprev s)])"
  | (slv) sys where
      "assemble L (TIME s + TAU p) (xvel s') (yvel s') (press s') (xprev s) (yprev s) = Some sys"
      "trace s' = trace s @ map (stamp i (TIME s + TAU p))
         (Advance # assign_calls L s @ [Assemble (xprev s) (yprev s), Solve sys])"
    by blast
  then show thesis
  proof cases
    case asm
    then show ?thesis using that[of "[]"] T by simp
  next
    case slv
    then show ?thesis using that[of "[Solve sys]"] T by simp
  qed
qed

lemma step_returns:
  assumes "\<And>t sx sy sp xp yp. assemble L t sx sy sp xp yp \<noteq> None"
    and "\<And>sys. spsolve L sys \<noteq> SolveRaised"
  shows "\<exists>s'. step p L i s = Inr s'"
proof -
  let ?s2 = "assign_all L i (emit i Advance (s\<lparr>TIME := TIME s + TAU p\<rparr>))"
  obtain sys where a: "assemble L (TIME ?s2) (xvel ?s2) (yvel ?s2) (press ?s2) (xprev ?s2) (yprev ?s2) = Some sys"
    using assms(1) by blast
  obtain X where r: "returned_vector (spsolve L sys) = Some X"
    using assms(2)[of sys] by (cases "spsolve L sys") auto
  show ?thesis using a r by (simp add: step_def Let_def)
qed

lemma main_loop_final_induct:
  assumes "P i s"
    and "\<And>j t t'. j \<le> n \<Longrightarrow> P j t \<Longrightarrow> step p L j t = Inr t' \<Longrightarrow> P (j + 1) t'"
    and "\<And>j t e t'. j \<le> n \<Longrightarrow> P j t \<Longrightarrow> step p L j t = Inl (e, t') \<Longrightarrow> Q t'"
    and "\<And>j t. P j t \<Longrightarrow> Q t"
  shows "Q (final_state (main_loop p L i n s))"
  using assms
proof (induction p L i n s rule: main_loop.induct)
  case (1 p L i n s)
  show ?case
  proof (cases "i \<le> n")
    case False
    then show ?thesis using "1.prems"(1,4) by (simp add: main_loop.simps)
  next
    case True
    show ?thesis
    proof (cases "step p L i s")
      case (Inl a)
      then obtain e t' where st: "step p L i s = Inl (e, t')" by (cases a) auto
      have "Q t'" using "1.prems"(3)[OF True "1.prems"(1) st] .
      then show ?thesis using True st by (subst main_loop.simps) simp
    next
      case (Inr t')
      have "P (i + 1) t'" using "1.prems"(2)[OF True "1.prems"(1) Inr] .
      then have "Q (final_state (main_loop p L (i + 1) n t'))"
        using "1.IH"[OF True Inr] "1.prems"(2,3,4) by blast
      then show ?thesis using True Inr by (subst main_loop.simps) simp
    qed
  qed
qed

lemma main_loop_Inr_induct:
  assumes "main_loop p L i n s = Inr s'" "P i s" "i \<le> n + 1"
    and "\<And>j t t'. i \<le> j \<Longrightarrow> j \<le> n \<Longrightarrow> P j t \<Longrightarrow> step p L j t = Inr t' \<Longrightarrow> P (j + 1) t'"
  shows "P (n + 1) s'"
  using assms
proof (induction p L i n s rule: main_loop.induct)
  case (1 p L i n s)
  show ?case
  proof (cases "i \<le> n")
    case False
    then have "i = n + 1" using "1.prems"(3) by simp
    moreover have "s' = s" using False "1.prems"(1) by (simp add: main_loop.simps)
    ultimately show ?thesis using "1.prems"(2) by simp
  next
    case True
    then obtain t' where st: "step p L i s = Inr t'" and ml: "main_loop p L (i + 1) n t' = Inr s'"
      using "1.prems"(1) by (subst (asm) main_loop.simps) (auto split: sum.splits)
    have "P (i + 1) t'" using "1.prems"(4)[OF _ True "1.prems"(2) st] by simp
    moreover have "\<And>j t t'. i + 1 \<le> j \<Longrightarrow> j \<le> n \<Longrightarrow> P j t \<Longrightarrow> step p L j t = Inr t' \<Longrightarrow> P (j + 1) t'"
      using "1.prems"(4) by simp
    ultimately show ?thesis using "1.IH"[OF True st ml] True by simp
  qed
qed

lemma main_loop_total:
  assumes "\<And>j t. \<exists>t'. step p L j t = Inr t'"
  shows "\<exists>s'. main_loop p L i n s = Inr s'"
  using assms
proof (induction p L i n s rule: main_loop.induct)
  case (1 p L i n s)
  show ?case
  proof (cases "i \<le> n")
    case False
    then show ?thesis by (simp add: main_loop.simps)
  next
    case True
    obtain t' where st: "step p L i s = Inr t'" using "1.prems" by blast
    then show ?thesis using "1.IH"[OF True st] "1.prems" True by (subst main_loop.simps) simp
  qed
qed

lemma stamp_sel [simp]:
  "ev_iter (stamp i t c) = i" "ev_time (stamp i t c) = t" "ev_call (stamp i t c) = c"
  by (simp_all add: stamp_def)

lemma calls_in_append [simp]: "calls_in i (a @ b) = calls_in i a @ calls_in i b"
  by (simp add: calls_in_def)

lemma calls_in_stamp [simp]: "calls_in i (map (stamp j t) cs) = (if i = j then cs else [])"
  by (induction cs) (auto simp: calls_in_def stamp_def)

lemma calls_in_Nil [simp]: "calls_in i [] = []"
  by (simp add: calls_in_def)

lemma calls_in_empty: "\<forall>e\<in>set tr. ev_iter e < j \<Longrightarrow> j \<le> i \<Longrightarrow> calls_in i tr = []"
  by (auto simp: calls_in_def filter_empty_conv)

lemma sorted_stamp [simp]: "sorted (map (ev_iter \<circ> stamp j t) cs)"
  by (induction cs) auto

lemma count_calls_append [simp]: "count_calls k (a @ b) = count_calls k a + count_calls k b"
  by (simp add: count_calls_def)

lemma count_calls_stamp [simp]:
  "count_calls k (map (stamp j t) cs) = length (filter (\<lambda>c. kind_of c = k) cs)"
  by (induction cs) (auto simp: count_calls_def)

lemma count_calls_Nil [simp]: "count_calls k [] = 0"
  by (simp add: count_calls_def)

lemma notin_assign_calls [simp]:
  "Advance \<notin> set (assign_calls L s)" "Assemble xp yp \<notin> set (assign_calls L s)"
  "Solve sys \<notin> set (assign_calls L s)" "Decode f u \<notin> set (assign_calls L s)"
  by (simp_all add: assign_calls_def Let_def)

lemma kinds_assign_calls [simp]: "map kind_of (assign_calls L s) = setup_kinds"
  by (simp add: assign_calls_def setup_kinds_def Let_def)

lemma filter_assign_calls [simp]:
  "k \<in> {KAdvance, KAssemble, KSolve, KDecode XVel, KDecode YVel, KDecode Press} \<Longrightarrow>
   filter (\<lambda>c. kind_of c = k) (assign_calls L s) = []"
  by (auto simp: assign_calls_def Let_def)

lemma initial_state_simps [simp]:
  "trace (initial_state p L) = []" "TIME (initial_state p L) = 0"
  "xprev (initial_state p L) = set_zero L" "yprev (initial_state p L) = set_zero L"
  by (simp_all add: initial_state_def)

lemma step_trace:
  "\<exists>cs. trace (final_state (step p L j s)) = trace s @ map (stamp j (TIME s + TAU p)) (Advance # cs)
      \<and> Advance \<notin> set cs \<and> TIME (final_state (step p L j s)) = TIME s + TAU p"
proof (cases "step p L j s")
  case (Inl a)
  then obtain e t' where st: "step p L j s = Inl (e, t')" by (cases a) auto
  from step_Inl_trace[OF st] obtain cs where
    tr: "trace t' = trace s @ map (stamp j (TIME s + TAU p))
        (Advance # assign_calls L s @ Assemble (xprev s) (yprev s) # cs)"
    and cs: "cs = [] \<or> (\<exists>sys. cs = [Solve sys] \<and>
       assemble L (TIME s + TAU p) (xvel t') (yvel t') (press t') (xprev s) (yprev s) = Some sys)"
    and T: "TIME t' = TIME s + TAU p" by blast
  have "Advance \<notin> set (assign_calls L s @ Assemble (xprev s) (yprev s) # cs)"
    using cs by auto
  then show ?thesis unfolding st using tr T
    by (intro exI[of _ "assign_calls L s @ Assemble (xprev s) (yprev s) # cs"]) simp
next
  case (Inr t')
  from step_Inr[OF Inr] obtain sys ps where
    "trace t' = trace s @ map (stamp j (TIME s + TAU p))
        (Advance # assign_calls L s @ [Assemble (xprev s) (yprev s), Solve sys,
           Decode XVel (xprev t'), Decode YVel (yprev t'), Decode Press ps])"
    and "TIME t' = TIME s + TAU p" by blast
  then show ?thesis unfolding Inr
    by (intro exI[of _ "assign_calls L s @ [Assemble (xprev s) (yprev s), Solve sys,
           Decode XVel (xprev t'), Decode YVel (yprev t'), Decode Press ps]"]) simp
qed

section \<open>Rounding to binary64\<close>

lemma round_even_of_int [simp]: "round_even (of_int k) = k"
  by (simp add: round_even_def)

lemma round_even_ge: "of_int k \<le> y \<Longrightarrow> k \<le> round_even y"
proof -
  assume "of_int k \<le> y"
  then have "k \<le> \<lfloor>y\<rfloor>" by (simp add: le_floor_iff)
  then show ?thesis unfolding round_even_def Let_def by auto
qed

lemma round_even_le: "y \<le> of_int k \<Longrightarrow> round_even y \<le> k"
proof -
  assume a: "y \<le> of_int k"
  have f: "\<lfloor>y\<rfloor> \<le> k" using a by linarith
  show ?thesis
  proof (cases "\<lfloor>y\<rfloor> = k")
    case True
    then have "y = of_int k" using a by (metis of_int_floor_le order_antisym)
    then show ?thesis by simp
  next
    case False
    then have "\<lfloor>y\<rfloor> + 1 \<le> k" using f by simp
    then show ?thesis unfolding round_even_def Let_def by auto
  qed
qed

lemma exponent_bounds:
  assumes "0 < a"
  shows "2 powr of_int \<lfloor>log 2 a\<rfloor> \<le> a" and "a < 2 powr (of_int \<lfloor>log 2 a\<rfloor> + 1)"
proof -
  have "of_int \<lfloor>log 2 a\<rfloor> \<le> log 2 a" by simp
  then show "2 powr of_int \<lfloor>log 2 a\<rfloor> \<le> a"
    using assms le_log_iff[of 2 a "of_int \<lfloor>log 2 a\<rfloor>"] by simp
  have "log 2 a < of_int \<lfloor>log 2 a\<rfloor> + 1" by linarith
  then show "a < 2 powr (of_int \<lfloor>log 2 a\<rfloor> + 1)"
    using assms log_less_iff[of 2 a "of_int \<lfloor>log 2 a\<rfloor> + 1"] by simp
qed

lemma exponent_le:
  assumes "0 < a" and "a < 2 powr of_int n"
  shows "\<lfloor>log 2 a\<rfloor> < n"
proof -
  have "log 2 a < of_int n" using assms log_less_iff[of 2 a "of_int n"] by simp
  then show ?thesis by (simp add: floor_less_iff)
qed

lemma powr_int_split:
  fixes e :: int
  assumes "e \<le> n"
  shows "(2::real) powr (of_int e - of_int n) = 1 / 2 ^ nat (n - e)"
proof -
  have "(2::real) powr (of_int e - of_int n) = 2 powr (- real (nat (n - e)))"
    using assms by simp
  also have "\<dots> = 1 / 2 powr real (nat (n - e))" by (simp add: powr_minus_divide)
  also have "\<dots> = 1 / 2 ^ nat (n - e)" by (simp add: powr_realpow)
  finally show ?thesis .
qed


lemma b64_unit:
  assumes "0 < a" and "a < 2 ^ 53 / 2 ^ n"
  shows "(2::real) powr (of_int \<lfloor>log 2 a\<rfloor> - 52) = 1 / 2 ^ nat (52 - \<lfloor>log 2 a\<rfloor>)"
    and "n \<le> nat (52 - \<lfloor>log 2 a\<rfloor>)"
proof -
  have "a * 2 ^ n < 2 ^ 53" using assms(2) by (simp add: field_simps)
  moreover have "a \<le> a * 2 ^ n" using assms(1) by simp
  ultimately have "a < 2 ^ 53" by linarith
  then have "a < 2 powr of_int 53" by (simp add: powr_numeral flip: powr_realpow)
  then have e: "\<lfloor>log 2 a\<rfloor> \<le> 52" using exponent_le[OF assms(1), of 53] by simp
  show "(2::real) powr (of_int \<lfloor>log 2 a\<rfloor> - 52) = 1 / 2 ^ nat (52 - \<lfloor>log 2 a\<rfloor>)"
    using powr_int_split[OF e] by simp
  have "a < 2 powr (of_int (53 - int n))"
  proof -
    have "(2::real) powr (of_int (53 - int n)) = 2 powr 53 / 2 powr real n"
      by (simp add: powr_diff)
    also have "\<dots> = 2 ^ 53 / 2 ^ n" by (simp add: powr_realpow)
    finally show ?thesis using assms(2) by simp
  qed
  then have "\<lfloor>log 2 a\<rfloor> < 53 - int n" by (rule exponent_le[OF assms(1)])
  then show "n \<le> nat (52 - \<lfloor>log 2 a\<rfloor>)" by simp
qed

lemma b64_dyadic:
  assumes "\<bar>m\<bar> < 2 ^ 53"
  shows "b64 (of_int m / 2 ^ n) = of_int m / 2 ^ n"
proof (cases "m = 0")
  case True
  then show ?thesis by (simp add: b64_def)
next
  case False
  define x :: real where "x = of_int m / 2 ^ n"
  define j where "j = nat (52 - \<lfloor>log 2 \<bar>x\<bar>\<rfloor>)"
  have x0: "x \<noteq> 0" using False by (simp add: x_def)
  have ax: "\<bar>x\<bar> = of_int \<bar>m\<bar> / 2 ^ n" by (simp add: x_def)
  have "(of_int \<bar>m\<bar> :: real) < of_int (2 ^ 53)" using assms by (simp only: of_int_less_iff)
  then have lt: "\<bar>x\<bar> < 2 ^ 53 / 2 ^ n" unfolding ax by (simp add: divide_strict_right_mono)
  have pos: "0 < \<bar>x\<bar>" using x0 by simp
  have u: "(2::real) powr (of_int \<lfloor>log 2 \<bar>x\<bar>\<rfloor> - 52) = 1 / 2 ^ j"
    and nj: "n \<le> j"
    using b64_unit[OF pos lt] by (simp_all add: j_def)
  have "x / (1 / 2 ^ j) = of_int m * 2 ^ (j - n)"
    using nj by (simp add: x_def power_diff)
  also have "\<dots> = of_int (m * 2 ^ (j - n))" by simp
  finally have q: "x / (1 / 2 ^ j) = of_int (m * 2 ^ (j - n))" .
  have "b64 x = of_int (round_even (x / (1 / 2 ^ j))) * (1 / 2 ^ j)"
    using x0 by (simp add: b64_def Let_def u)
  also have "\<dots> = of_int (m * 2 ^ (j - n)) * (1 / 2 ^ j)"
    by (simp only: q round_even_of_int)
  also have "\<dots> = x" using q by (simp add: field_simps)
  finally show ?thesis by (simp add: x_def)
qed

lemma b64_of_int: "\<bar>m\<bar> < 2 ^ 53 \<Longrightarrow> b64 (of_int m) = of_int m"
  using b64_dyadic[of m 0] by simp

lemma round_even_near: "\<bar>of_int (round_even y) - y\<bar> \<le> 1 / 2"
  unfolding round_even_def Let_def by (simp; linarith)

lemma b64_scaled:
  assumes "0 < q" and "q < 2 ^ 53 / 2 ^ n"
  obtains j where "n \<le> j" and "b64 q = of_int (round_even (q * 2 ^ j)) / 2 ^ j"
proof -
  define j where "j = nat (52 - \<lfloor>log 2 q\<rfloor>)"
  have u: "(2::real) powr (of_int \<lfloor>log 2 q\<rfloor> - 52) = 1 / 2 ^ j" and nj: "n \<le> j"
    using b64_unit[OF assms] by (simp_all add: j_def)
  have "b64 q = of_int (round_even (q * 2 ^ j)) / 2 ^ j"
    using assms(1) by (simp add: b64_def Let_def u)
  then show thesis using nj that by blast
qed

lemma b64_between:
  assumes "0 < q" and "q < 2 ^ 53"
  shows "of_int \<lfloor>q\<rfloor> \<le> b64 q" and "b64 q \<le> of_int \<lceil>q\<rceil>"
proof -
  have "q < 2 ^ 53 / 2 ^ 0" using assms(2) by simp
  then obtain j where b: "b64 q = of_int (round_even (q * 2 ^ j)) / 2 ^ j"
    using b64_scaled[OF assms(1)] by blast
  have "of_int (\<lfloor>q\<rfloor> * 2 ^ j) \<le> q * 2 ^ j" by simp
  then have "\<lfloor>q\<rfloor> * 2 ^ j \<le> round_even (q * 2 ^ j)" by (rule round_even_ge)
  then have "(of_int (\<lfloor>q\<rfloor> * 2 ^ j) :: real) \<le> of_int (round_even (q * 2 ^ j))"
    by (simp only: of_int_le_iff)
  then show "of_int \<lfloor>q\<rfloor> \<le> b64 q" unfolding b by (simp add: field_simps)
  have "q * 2 ^ j \<le> of_int (\<lceil>q\<rceil> * 2 ^ j)" by simp
  then have "round_even (q * 2 ^ j) \<le> \<lceil>q\<rceil> * 2 ^ j" by (rule round_even_le)
  then have "(of_int (round_even (q * 2 ^ j)) :: real) \<le> of_int (\<lceil>q\<rceil> * 2 ^ j)"
    by (simp only: of_int_le_iff)
  then show "b64 q \<le> of_int \<lceil>q\<rceil>" unfolding b by (simp add: field_simps)
qed

lemma b64_near:
  assumes "0 < q" and "q < 2 ^ 53 / 2 ^ n"
  shows "\<bar>b64 q - q\<bar> \<le> 1 / 2 ^ (n + 1)"
proof -
  obtain j where nj: "n \<le> j" and b: "b64 q = of_int (round_even (q * 2 ^ j)) / 2 ^ j"
    using b64_scaled[OF assms] by blast
  have "b64 q - q = (of_int (round_even (q * 2 ^ j)) - q * 2 ^ j) / 2 ^ j"
    unfolding b by (simp add: field_simps)
  then have "\<bar>b64 q - q\<bar> = \<bar>of_int (round_even (q * 2 ^ j)) - q * 2 ^ j\<bar> / 2 ^ j"
    by (simp add: abs_divide)
  also have "\<dots> \<le> (1 / 2) / 2 ^ j"
    by (rule divide_right_mono[OF round_even_near]) simp
  also have "\<dots> = 1 / 2 ^ (j + 1)" by simp
  also have "\<dots> \<le> 1 / 2 ^ (n + 1)"
    using nj by (simp add: frac_le power_increasing)
  finally show ?thesis .
qed

lemma floor_b64:
  assumes "0 < q" and "q < 2 ^ 31"
  shows "\<lfloor>q\<rfloor> \<le> \<lfloor>b64 q\<rfloor>" and "\<lfloor>b64 q\<rfloor> \<le> \<lceil>q\<rceil>"
    and "q + 1 / 2 ^ 23 < of_int \<lceil>q\<rceil> \<Longrightarrow> \<lfloor>b64 q\<rfloor> = \<lfloor>q\<rfloor>"
    and "b64 q = q \<Longrightarrow> \<lfloor>b64 q\<rfloor> = \<lfloor>q\<rfloor>"
proof -
  have big: "q < 2 ^ 53" using assms(2) by simp
  have lo: "of_int \<lfloor>q\<rfloor> \<le> b64 q" and hi: "b64 q \<le> of_int \<lceil>q\<rceil>"
    using b64_between[OF assms(1) big] by simp_all
  show a: "\<lfloor>q\<rfloor> \<le> \<lfloor>b64 q\<rfloor>" using lo by (simp add: le_floor_iff)
  show "\<lfloor>b64 q\<rfloor> \<le> \<lceil>q\<rceil>" using hi by linarith
  show "\<lfloor>b64 q\<rfloor> = \<lfloor>q\<rfloor>" if "b64 q = q" using that by simp
  show "\<lfloor>b64 q\<rfloor> = \<lfloor>q\<rfloor>" if c: "q + 1 / 2 ^ 23 < of_int \<lceil>q\<rceil>"
  proof -
    have "q < 2 ^ 53 / 2 ^ 22" using assms(2) by simp
    then have "\<bar>b64 q - q\<bar> \<le> 1 / 2 ^ (22 + 1)" by (rule b64_near[OF assms(1)])
    then have "b64 q - q \<le> 1 / 2 ^ 23" by (simp only: abs_le_iff) simp
    then have "b64 q < of_int \<lceil>q\<rceil>" using c by linarith
    moreover have "\<lceil>q\<rceil> \<le> \<lfloor>q\<rfloor> + 1" by linarith
    ultimately have "b64 q < of_int (\<lfloor>q\<rfloor> + 1)" by (smt (verit) of_int_le_iff)
    then have "\<lfloor>b64 q\<rfloor> < \<lfloor>q\<rfloor> + 1" by (simp only: floor_less_iff)
    then show ?thesis using a by simp
  qed
qed

lemma b64_nonneg: "0 \<le> x \<Longrightarrow> 0 \<le> b64 x"
proof (cases "x = 0")
  case True
  then show ?thesis by (simp add: b64_def)
next
  case False
  assume "0 \<le> x"
  define u :: real where "u = 2 powr (of_int \<lfloor>log 2 \<bar>x\<bar>\<rfloor> - 52)"
  have u: "0 < u" by (simp add: u_def)
  have "of_int 0 \<le> x / u" using \<open>0 \<le> x\<close> u by simp
  then have "0 \<le> round_even (x / u)" by (rule round_even_ge)
  then have "0 \<le> of_int (round_even (x / u)) * u" using u by simp
  then show ?thesis using False by (simp add: b64_def Let_def u_def)
qed

lemma b64_values:
  "b64 1 = 1" "b64 2 = 2" "b64 (1 / 2) = 1 / 2" "b64 (3 / 4) = 3 / 4"
  "b64 3000 = 3000" "b64 6000 = 6000"
  using b64_of_int[of 1] b64_of_int[of 2] b64_dyadic[of 1 1] b64_dyadic[of 3 2]
    b64_of_int[of 3000] b64_of_int[of 6000]
  by simp_all

section \<open>Runs of the small library instance\<close>

lemma nts_two: "num_time_steps two_step_params = 2"
  by (simp add: num_time_steps_def two_step_params_def source_params_def double_to_int_def
      b64_values)

lemma example_assign:
  "assign_all (example_lib outcome) i s =
     s\<lparr>ndofs := 5,
       xvel := (xvel s)\<lparr>first_dof := 0, num_dofs := 2, bc_time := TIME s\<rparr>,
       yvel := (yvel s)\<lparr>first_dof := 2, num_dofs := 2, bc_time := TIME s\<rparr>,
       press := (press s)\<lparr>first_dof := 4, num_dofs := 1, bc_time := TIME s\<rparr>,
       trace := trace s @ map (stamp i (TIME s)) example_setup_calls\<rparr>"
  by (simp add: assign_all_def assign_dofs_def example_lib_def emit_def Let_def
      example_setup_calls_def stamp_def)

lemma example_assign_calls [simp]:
  "assign_calls (example_lib outcome) s = example_setup_calls"
  by (simp add: assign_calls_def example_lib_def example_setup_calls_def)

lemma example_step:
  assumes "\<And>v. returned_vector (outcome v) = Some v" and "TAU p = 1 / 2"
  shows "step p (example_lib outcome) i s =
     Inr (s\<lparr>TIME := TIME s + 1 / 2, ndofs := 5,
       xvel := (xvel s)\<lparr>first_dof := 0, num_dofs := 2, bc_time := TIME s + 1 / 2\<rparr>,
       yvel := (yvel s)\<lparr>first_dof := 2, num_dofs := 2, bc_time := TIME s + 1 / 2\<rparr>,
       press := (press s)\<lparr>first_dof := 4, num_dofs := 1, bc_time := TIME s + 1 / 2\<rparr>,
       xprev := [TIME s + 1 / 2, TIME s + 1 / 2], yprev := [TIME s + 1 / 2, TIME s + 1 / 2],
       trace := trace s @ map (stamp i (TIME s + 1 / 2)) (example_calls (TIME s + 1 / 2) (xprev s) (yprev s))\<rparr>)"
  unfolding step_def example_assign
  by (simp add: example_lib_def assms emit_def Let_def example_calls_def stamp_def)

lemma example_run:
  assumes "\<And>v. returned_vector (outcome v) = Some v"
  shows "\<exists>s. main two_step_params (example_lib outcome) = Inr s \<and> TIME s = 1
     \<and> xprev s = [1, 1] \<and> yprev s = [1, 1]
     \<and> trace s = map (stamp 0 0) example_setup_calls
          @ map (stamp 1 (1 / 2)) (example_calls (1 / 2) [0, 0] [0, 0])
          @ map (stamp 2 1) (example_calls 1 [1 / 2, 1 / 2] [1 / 2, 1 / 2])"
proof -
  have tau: "TAU two_step_params = 1 / 2" by (simp add: two_step_params_def source_params_def)
  have imp: "import_hermes2d (example_lib outcome) = 0" by (simp add: example_lib_def)
  have z: "set_zero (example_lib outcome) = [0, 0]" by (simp add: example_lib_def)
  show ?thesis
    unfolding main_def nts_two
    apply (simp only: imp if_False simp_thms)
    apply (subst main_loop.simps, simp add: example_step[OF assms tau])
    apply (subst main_loop.simps, simp add: example_step[OF assms tau])
    apply (subst main_loop.simps, simp add: example_assign z)
    done
qed

lemma example_returns:
  "assemble (example_lib outcome) t sx sy sp xp yp \<noteq> None"
  "import_hermes2d (example_lib outcome) = 0"
  "spsolve (example_lib Solved) sys \<noteq> SolveRaised"
  "spsolve (example_lib SolveFailed) sys \<noteq> SolveRaised"
  by (simp_all add: example_lib_def)

lemma uneven_facts:
  "0 < FINAL_TIME uneven_params" "0 < TAU uneven_params"
  "\<lfloor>b64 (FINAL_TIME uneven_params / TAU uneven_params)\<rfloor> = 1"
  "\<lceil>FINAL_TIME uneven_params / TAU uneven_params\<rceil> = 2"
  "b64 (FINAL_TIME uneven_params) = FINAL_TIME uneven_params"
  "b64 (TAU uneven_params) = TAU uneven_params"
proof -
  have "\<lfloor>b64 (4 / 3)\<rfloor> = \<lfloor>4 / 3 :: real\<rfloor>"
    by (rule floor_b64(3)) (simp_all add: ceiling_eq_iff)
  then show "\<lfloor>b64 (FINAL_TIME uneven_params / TAU uneven_params)\<rfloor> = 1"
    by (simp add: uneven_params_def source_params_def floor_eq_iff)
  show "\<lceil>FINAL_TIME uneven_params / TAU uneven_params\<rceil> = 2"
    by (simp add: uneven_params_def source_params_def ceiling_eq_iff)
qed (simp_all add: uneven_params_def source_params_def b64_values)

lemma example_trace_facts:
  assumes "\<And>v. returned_vector (outcome v) = Some v"
  defines "tr \<equiv> trace (final_state (main two_step_params (example_lib outcome)))"
  shows "stamp 1 (1 / 2) Advance \<in> set tr" "stamp 2 1 Advance \<in> set tr"
    "calls_in 1 tr = example_calls (1 / 2) [0, 0] [0, 0]"
    "calls_in 2 tr = example_calls 1 [1 / 2, 1 / 2] [1 / 2, 1 / 2]"
    "stamp 2 1 (Assemble [1 / 2, 1 / 2] [1 / 2, 1 / 2]) \<in> set tr"
    "stamp 1 (1 / 2) (Assemble [0, 0] [0, 0]) \<in> set tr"
proof -
  obtain s where s: "main two_step_params (example_lib outcome) = Inr s"
    and t: "trace s = map (stamp 0 0) example_setup_calls
          @ map (stamp 1 (1 / 2)) (example_calls (1 / 2) [0, 0] [0, 0])
          @ map (stamp 2 1) (example_calls 1 [1 / 2, 1 / 2] [1 / 2, 1 / 2])"
    using example_run[OF assms(1)] by blast
  have tr: "tr = map (stamp 0 0) example_setup_calls
          @ map (stamp 1 (1 / 2)) (example_calls (1 / 2) [0, 0] [0, 0])
          @ map (stamp 2 1) (example_calls 1 [1 / 2, 1 / 2] [1 / 2, 1 / 2])"
    using s t by (simp add: tr_def)
  show "calls_in 1 tr = example_calls (1 / 2) [0, 0] [0, 0]"
    "calls_in 2 tr = example_calls 1 [1 / 2, 1 / 2] [1 / 2, 1 / 2]"
    unfolding tr by (simp_all only: calls_in_append calls_in_stamp) simp_all
  show "stamp 1 (1 / 2) Advance \<in> set tr" "stamp 2 1 Advance \<in> set tr"
    "stamp 2 1 (Assemble [1 / 2, 1 / 2] [1 / 2, 1 / 2]) \<in> set tr"
    "stamp 1 (1 / 2) (Assemble [0, 0] [0, 0]) \<in> set tr"
    unfolding tr by (simp_all add: example_calls_def)
qed

section \<open>The clock\<close>

lemma clock_step:
  assumes "clock p j s" and tr: "trace s' = trace s @ map (stamp j (TIME s + TAU p)) (Advance # cs)"
    and "Advance \<notin> set cs" and T: "TIME s' = TIME s + TAU p"
  shows "clock p (j + 1) s'"
proof -
  from assms(1) have j: "1 \<le> j" and t: "TIME s = of_int (j - 1) * TAU p"
    and lt: "\<forall>e\<in>set (trace s). ev_iter e < j" and st: "stamped p (trace s)"
    by (auto simp: clock_def)
  have t': "TIME s + TAU p = of_int j * TAU p" using t by (simp add: algebra_simps)
  have e: "calls_in j (trace s) = []" using calls_in_empty[OF lt] by simp
  have ci: "\<And>i. calls_in i (trace s') = calls_in i (trace s) @ (if i = j then Advance # cs else [])"
    unfolding tr by (simp only: calls_in_append calls_in_stamp)
  have 1: "\<forall>e\<in>set (trace s'). ev_time e = of_int (ev_iter e) * TAU p"
    using st t' by (auto simp: tr stamped_def)
  have 2: "sorted (map ev_iter (trace s'))"
    using st lt by (auto simp: tr stamped_def sorted_append dest: less_imp_le)
  have 3: "\<forall>i. 1 \<le> i \<and> calls_in i (trace s') \<noteq> [] \<longrightarrow>
        hd (calls_in i (trace s')) = Advance \<and> Advance \<notin> set (tl (calls_in i (trace s')))"
  proof (intro allI impI)
    fix i assume a: "1 \<le> i \<and> calls_in i (trace s') \<noteq> []"
    show "hd (calls_in i (trace s')) = Advance \<and> Advance \<notin> set (tl (calls_in i (trace s')))"
    proof (cases "i = j")
      case True
      then show ?thesis using ci[of i] e assms(3) by simp
    next
      case False
      then show ?thesis using ci[of i] a st by (simp add: stamped_def)
    qed
  qed
  have 4: "\<forall>e\<in>set (trace s'). ev_iter e < j + 1" using lt by (auto simp: tr)
  show ?thesis using 1 2 3 4 j t' T by (simp add: clock_def stamped_def)
qed

lemma stamped_main: "stamped p (trace (final_state (main p L)))"
proof (cases "import_hermes2d L \<noteq> 0")
  case True
  then show ?thesis by (simp add: main_def stamped_def)
next
  case False
  let ?s0 = "assign_all L 0 (initial_state p L)"
  have init: "clock p 1 ?s0"
    by (auto simp: clock_def stamped_def)
  have "stamped p (trace (final_state (main_loop p L 1 (num_time_steps p) ?s0)))"
  proof (rule main_loop_final_induct[where P = "clock p" and Q = "\<lambda>s. stamped p (trace s)"])
    show "clock p 1 ?s0" by (rule init)
  next
    fix j t t' assume "clock p j t" "step p L j t = Inr t'"
    then show "clock p (j + 1) t'" using step_trace[of p L j t] clock_step by fastforce
  next
    fix j t e t' assume "clock p j t" "step p L j t = Inl (e, t')"
    then have "clock p (j + 1) t'" using step_trace[of p L j t] clock_step by fastforce
    then show "stamped p (trace t')" by (simp add: clock_def)
  next
    fix j t assume "clock p j (t :: 'a state)" then show "stamped p (trace t)" by (simp add: clock_def)
  qed
  then show ?thesis using False by (simp add: main_def)
qed

text \<open>
  Claim C3. Every iteration advances the global time exactly once, by the fixed step, and
  before anything else of the iteration: the first logged call of an iteration is its only
  \<open>Advance\<close>. Hence every call of iteration \<open>i\<close> (the re-evaluation of the boundary
  values in \<open>assign_dofs\<close>, the assembly, the solve, the decoding) sees the same time
  \<open>i * TAU\<close>; the log is in iteration order, and for a positive step the time is strictly
  larger in a later iteration. This holds for the log of every run, also one that an
  exception ends.
\<close>

theorem time_advances_once_before_each_iteration:
  "(step p L i s = Inr s' \<longrightarrow> TIME s' = TIME s + TAU p) \<and>
   (\<forall>e\<in>set (trace (final_state (main p L))). ev_time e = of_int (ev_iter e) * TAU p) \<and>
   (\<forall>i. 1 \<le> i \<and> calls_in i (trace (final_state (main p L))) \<noteq> [] \<longrightarrow>
      hd (calls_in i (trace (final_state (main p L)))) = Advance \<and>
      Advance \<notin> set (tl (calls_in i (trace (final_state (main p L)))))) \<and>
   sorted (map ev_iter (trace (final_state (main p L)))) \<and>
   (0 < TAU p \<longrightarrow>
      (\<forall>e\<in>set (trace (final_state (main p L))). \<forall>e'\<in>set (trace (final_state (main p L))).
         ev_iter e < ev_iter e' \<longrightarrow> ev_time e < ev_time e'))"
proof -
  let ?tr = "trace (final_state (main p L))"
  have st: "stamped p ?tr" by (rule stamped_main)
  have 1: "step p L i s = Inr s' \<longrightarrow> TIME s' = TIME s + TAU p"
    using step_Inr[of p L i s s'] by blast
  have 2: "\<forall>e\<in>set ?tr. ev_time e = of_int (ev_iter e) * TAU p"
    using st by (simp add: stamped_def)
  have 3: "\<forall>i. 1 \<le> i \<and> calls_in i ?tr \<noteq> [] \<longrightarrow>
      hd (calls_in i ?tr) = Advance \<and> Advance \<notin> set (tl (calls_in i ?tr))"
    using st by (simp add: stamped_def)
  have 4: "sorted (map ev_iter ?tr)" using st by (simp add: stamped_def)
  have 5: "0 < TAU p \<longrightarrow>
      (\<forall>e\<in>set ?tr. \<forall>e'\<in>set ?tr. ev_iter e < ev_iter e' \<longrightarrow> ev_time e < ev_time e')"
    using 2 by (simp add: mult_strict_right_mono)
  show ?thesis using 1 2 3 4 5 by blast
qed

text \<open>C3 on the two-step run of the small library instance.\<close>

theorem time_advances_once_before_each_iteration_witness:
  "0 < TAU two_step_params
   \<and> (\<exists>e e'. e \<in> set (trace (final_state (main two_step_params (example_lib Solved))))
        \<and> e' \<in> set (trace (final_state (main two_step_params (example_lib Solved))))
        \<and> ev_iter e = 1 \<and> ev_iter e' = 2 \<and> ev_time e = 1 / 2 \<and> ev_time e' = 1
        \<and> ev_time e = of_int (ev_iter e) * TAU two_step_params
        \<and> ev_time e < ev_time e')
   \<and> calls_in 2 (trace (final_state (main two_step_params (example_lib Solved)))) \<noteq> []
   \<and> hd (calls_in 2 (trace (final_state (main two_step_params (example_lib Solved))))) = Advance"
proof -
  let ?tr = "trace (final_state (main two_step_params (example_lib Solved)))"
  note f = example_trace_facts[of Solved, simplified]
  note th = time_advances_once_before_each_iteration[of two_step_params "example_lib Solved"]
  have tau: "0 < TAU two_step_params" by (simp add: two_step_params_def source_params_def)
  have ne: "calls_in 2 ?tr \<noteq> []" using f(4) by (simp add: example_calls_def)
  have hd: "hd (calls_in 2 ?tr) = Advance" using th ne by auto
  have lt: "ev_time (stamp 1 (1 / 2) Advance :: real list event) < ev_time (stamp 2 1 Advance :: real list event)"
    using th tau f(1,2) by simp
  have st: "ev_time (stamp 1 (1 / 2) Advance :: real list event)
      = of_int (ev_iter (stamp 1 (1 / 2) Advance :: real list event)) * TAU two_step_params"
    using th f(1) by blast
  show ?thesis
    using tau ne hd lt st f(1,2)
    by (intro conjI exI[of _ "stamp 1 (1 / 2) Advance"] exI[of _ "stamp 2 1 Advance"]) simp_all
qed

section \<open>The number of iterations\<close>

lemma shaped_init: "shaped p 1 (assign_all L 0 (initial_state p L))"
  by (auto simp: shaped_def)

lemma shaped_step:
  assumes "shaped p j s" and st: "step p L j s = Inr s'"
  shows "shaped p (j + 1) s'"
proof -
  from assms(1) have j: "1 \<le> j" and t: "TIME s = of_int (j - 1) * TAU p"
    and lt: "\<forall>e\<in>set (trace s). ev_iter e < j"
    and sh: "\<And>i. map kind_of (calls_in i (trace s)) =
        (if 1 \<le> i \<and> i < j then iteration_kinds else if i = 0 then setup_kinds else [])"
    and ct: "\<And>k. k \<in> {KAdvance, KAssemble, KSolve, KDecode XVel, KDecode YVel, KDecode Press}
        \<Longrightarrow> count_calls k (trace s) = nat (j - 1)"
    by (auto simp: shaped_def)
  from step_Inr[OF st] obtain sys ps where T: "TIME s' = TIME s + TAU p"
    and tr: "trace s' = trace s @ map (stamp j (TIME s + TAU p))
        (Advance # assign_calls L s @ [Assemble (xprev s) (yprev s), Solve sys,
           Decode XVel (xprev s'), Decode YVel (yprev s'), Decode Press ps])"
    by blast
  let ?cs = "Advance # assign_calls L s @ [Assemble (xprev s) (yprev s), Solve sys,
           Decode XVel (xprev s'), Decode YVel (yprev s'), Decode Press ps]"
  have ci: "\<And>i. calls_in i (trace s') = calls_in i (trace s) @ (if i = j then ?cs else [])"
    unfolding tr by (simp only: calls_in_append calls_in_stamp)
  have cc: "\<And>k. count_calls k (trace s') = count_calls k (trace s) + length (filter (\<lambda>c. kind_of c = k) ?cs)"
    unfolding tr by (simp only: count_calls_append count_calls_stamp)
  have k: "map kind_of ?cs = iteration_kinds" by (simp add: iteration_kinds_def)
  have 1: "TIME s' = of_int (j + 1 - 1) * TAU p" using T t by (simp add: algebra_simps)
  have 2: "\<forall>e\<in>set (trace s'). ev_iter e < j + 1" using lt by (auto simp: tr)
  have 3: "\<forall>i. map kind_of (calls_in i (trace s')) =
        (if 1 \<le> i \<and> i < j + 1 then iteration_kinds else if i = 0 then setup_kinds else [])"
  proof
    fix i
    show "map kind_of (calls_in i (trace s')) =
        (if 1 \<le> i \<and> i < j + 1 then iteration_kinds else if i = 0 then setup_kinds else [])"
    proof (cases "i = j")
      case True
      then show ?thesis using ci[of i] sh[of i] k j by simp
    next
      case False
      then show ?thesis using ci[of i] sh[of i] by auto
    qed
  qed
  have 4: "\<forall>k\<in>{KAdvance, KAssemble, KSolve, KDecode XVel, KDecode YVel, KDecode Press}.
        count_calls k (trace s') = nat (j + 1 - 1)"
  proof
    fix k :: kind assume kin: "k \<in> {KAdvance, KAssemble, KSolve, KDecode XVel, KDecode YVel, KDecode Press}"
    then have "length (filter (\<lambda>c. kind_of c = k) ?cs) = 1" by auto
    then show "count_calls k (trace s') = nat (j + 1 - 1)"
      using cc[of k] ct[OF kin] j by simp
  qed
  show ?thesis unfolding shaped_def using j 1 2 3 4 by simp
qed

lemma main_run_shape:
  assumes F: "0 < FINAL_TIME p" and T: "0 < TAU p" and imp: "import_hermes2d L = 0"
    and asm: "\<And>t sx sy sp xp yp. assemble L t sx sy sp xp yp \<noteq> None"
    and slv: "\<And>sys. spsolve L sys \<noteq> SolveRaised"
  shows "\<exists>s. main p L = Inr s \<and> shaped p (\<lfloor>b64 (FINAL_TIME p / TAU p)\<rfloor> + 1) s"
proof -
  let ?n = "\<lfloor>b64 (FINAL_TIME p / TAU p)\<rfloor>"
  let ?s0 = "assign_all L 0 (initial_state p L)"
  have "0 \<le> FINAL_TIME p / TAU p" using F T by simp
  then have q: "0 \<le> b64 (FINAL_TIME p / TAU p)" by (rule b64_nonneg)
  then have n: "num_time_steps p = ?n" by (simp add: num_time_steps_def double_to_int_def)
  have n0: "0 \<le> ?n" using q by simp
  obtain s where s: "main_loop p L 1 ?n ?s0 = Inr s"
    using main_loop_total[of p L 1 ?n ?s0] step_returns[OF asm slv] by blast
  have "shaped p (?n + 1) s"
    by (rule main_loop_Inr_induct[OF s, where P = "shaped p"])
       (use n0 in \<open>auto intro: shaped_init shaped_step\<close>)
  then show ?thesis using s imp n by (simp add: main_def)
qed

text \<open>
  Claim C2, as amended. Let the final time and the step be positive \<open>double\<close>s whose
  quotient fits an \<open>int\<close>, and let the calls of the library return. Then main returns
  after exactly \<open>n\<close> iterations, \<open>n\<close> being the binary64 quotient \<open>FINAL_TIME / TAU\<close>
  converted to \<open>int\<close>. Each iteration \<open>1 .. n\<close> logs, in this order, one advance of the
  time, the three \<open>assign_dofs\<close>, one assembly, one solve and one decoded field for each
  of velocity-x, velocity-y and pressure; no other iteration logs anything. The number
  \<open>n\<close> is the floor or the ceiling of the exact quotient: the floor whenever the exact
  quotient is a \<open>double\<close> or lies more than \<open>2\<^sup>-\<^sup>2\<^sup>3\<close> below the next integer, so it is not
  the ceiling in general. When every sum \<open>i * TAU\<close>, \<open>i = 1 .. n\<close>, is a \<open>double\<close>, the
  additions \<open>TIME += TAU\<close> are exact and main ends with \<open>TIME = n * TAU\<close>, less than one
  step away from the final time, and not beyond it when \<open>n\<close> is the floor. For the values
  of the file the quotient is the whole number 6000, and floor and ceiling agree.
\<close>

theorem main_loop_runs_whole_quotient_of_steps:
  assumes "0 < FINAL_TIME p" and "0 < TAU p" and "FINAL_TIME p / TAU p \<le> 2147483646"
    and "b64 (FINAL_TIME p) = FINAL_TIME p" and "b64 (TAU p) = TAU p"
    and "import_hermes2d L = 0"
    and "\<And>t sx sy sp xp yp. assemble L t sx sy sp xp yp \<noteq> None"
    and "\<And>sys. spsolve L sys \<noteq> SolveRaised"
  shows "\<exists>s n. main p L = Inr s \<and> n = \<lfloor>b64 (FINAL_TIME p / TAU p)\<rfloor> \<and> num_time_steps p = n \<and>
      (\<forall>i. map kind_of (calls_in i (trace s)) =
         (if 1 \<le> i \<and> i \<le> n then iteration_kinds else if i = 0 then setup_kinds else [])) \<and>
      count_calls KAdvance (trace s) = nat n \<and>
      count_calls KAssemble (trace s) = nat n \<and>
      count_calls KSolve (trace s) = nat n \<and>
      (\<forall>f. count_calls (KDecode f) (trace s) = nat n) \<and>
      \<lfloor>FINAL_TIME p / TAU p\<rfloor> \<le> n \<and> n \<le> \<lceil>FINAL_TIME p / TAU p\<rceil> \<and>
      (FINAL_TIME p / TAU p + 1 / 2 ^ 23 < of_int \<lceil>FINAL_TIME p / TAU p\<rceil>
         \<longrightarrow> n = \<lfloor>FINAL_TIME p / TAU p\<rfloor>) \<and>
      (b64 (FINAL_TIME p / TAU p) = FINAL_TIME p / TAU p \<longrightarrow> n = \<lfloor>FINAL_TIME p / TAU p\<rfloor>) \<and>
      ((\<forall>i\<in>{1 .. n}. b64 (of_int i * TAU p) = of_int i * TAU p) \<longrightarrow>
         TIME s = of_int n * TAU p \<and>
         FINAL_TIME p - TAU p < TIME s \<and> TIME s < FINAL_TIME p + TAU p \<and>
         (n = \<lfloor>FINAL_TIME p / TAU p\<rfloor> \<longrightarrow> TIME s \<le> FINAL_TIME p)) \<and>
      num_time_steps source_params = 6000 \<and>
      num_time_steps source_params = \<lceil>FINAL_TIME source_params / TAU source_params\<rceil>"
proof -
  define q where "q = FINAL_TIME p / TAU p"
  define n where "n = \<lfloor>b64 q\<rfloor>"
  have q0: "0 < q" using assms(1,2) by (simp add: q_def)
  have q31: "q < 2 ^ 31" using assms(3) by (simp add: q_def)
  have qT: "q * TAU p = FINAL_TIME p" using assms(2) by (simp add: q_def)
  obtain s where m: "main p L = Inr s" and sh: "shaped p (n + 1) s"
    using main_run_shape[OF assms(1,2,6,7,8)] unfolding n_def q_def by blast
  have "0 \<le> b64 q" using q0 by (intro b64_nonneg) simp
  then have nts: "num_time_steps p = n"
    by (simp add: num_time_steps_def double_to_int_def n_def q_def)
  have t: "TIME s = of_int n * TAU p" using sh by (simp add: shaped_def)
  have lo: "\<lfloor>q\<rfloor> \<le> n" and hi: "n \<le> \<lceil>q\<rceil>"
    and far: "q + 1 / 2 ^ 23 < of_int \<lceil>q\<rceil> \<longrightarrow> n = \<lfloor>q\<rfloor>"
    and ex: "b64 q = q \<longrightarrow> n = \<lfloor>q\<rfloor>"
    unfolding n_def using floor_b64[OF q0 q31] by blast+
  have "q - 1 < of_int \<lfloor>q\<rfloor>" by linarith
  also have "\<dots> \<le> of_int n" using lo by simp
  finally have "(q - 1) * TAU p < of_int n * TAU p"
    using assms(2) by (simp only: mult_less_cancel_right_pos)
  then have below: "FINAL_TIME p - TAU p < TIME s" using t qT by (simp add: algebra_simps)
  have "of_int n \<le> (of_int \<lceil>q\<rceil> :: real)" using hi by simp
  also have "\<dots> < q + 1" by linarith
  finally have "of_int n * TAU p < (q + 1) * TAU p"
    using assms(2) by (simp only: mult_less_cancel_right_pos)
  then have above: "TIME s < FINAL_TIME p + TAU p" using t qT by (simp add: algebra_simps)
  have upto: "n = \<lfloor>q\<rfloor> \<longrightarrow> TIME s \<le> FINAL_TIME p"
  proof
    assume "n = \<lfloor>q\<rfloor>"
    then have "of_int n \<le> q" by simp
    then have "of_int n * TAU p \<le> q * TAU p"
      using assms(2) by (simp only: mult_le_cancel_right_pos)
    then show "TIME s \<le> FINAL_TIME p" using t qT by simp
  qed
  have kinds: "\<forall>i. map kind_of (calls_in i (trace s)) =
         (if 1 \<le> i \<and> i \<le> n then iteration_kinds else if i = 0 then setup_kinds else [])"
    using sh by (simp add: shaped_def)
  have cnt: "\<And>k. k \<in> {KAdvance, KAssemble, KSolve, KDecode XVel, KDecode YVel, KDecode Press}
      \<Longrightarrow> count_calls k (trace s) = nat n"
    using sh by (auto simp: shaped_def)
  have dec: "\<forall>f. count_calls (KDecode f) (trace s) = nat n"
  proof
    fix f show "count_calls (KDecode f) (trace s) = nat n" using cnt[of "KDecode f"] by (cases f) auto
  qed
  have src: "num_time_steps source_params = 6000"
    "num_time_steps source_params = \<lceil>FINAL_TIME source_params / TAU source_params\<rceil>"
    by (simp_all add: num_time_steps_def double_to_int_def source_params_def b64_values)
  have c: "count_calls KAdvance (trace s) = nat n" "count_calls KAssemble (trace s) = nat n"
    "count_calls KSolve (trace s) = nat n"
    using cnt by simp_all
  show ?thesis
    using m nts kinds c dec lo hi far ex t below above upto src
    unfolding n_def q_def by blast
qed

text \<open>C2 as amended, on the two-step run of the small library instance.\<close>

theorem main_loop_runs_whole_quotient_of_steps_witness:
  "0 < FINAL_TIME two_step_params \<and> 0 < TAU two_step_params
   \<and> FINAL_TIME two_step_params / TAU two_step_params \<le> 2147483646
   \<and> b64 (FINAL_TIME two_step_params) = FINAL_TIME two_step_params
   \<and> b64 (TAU two_step_params) = TAU two_step_params
   \<and> import_hermes2d (example_lib Solved) = 0
   \<and> (\<forall>t sx sy sp xp yp. assemble (example_lib Solved) t sx sy sp xp yp \<noteq> None)
   \<and> (\<forall>sys. spsolve (example_lib Solved) sys \<noteq> SolveRaised)
   \<and> b64 (1 * TAU two_step_params) = 1 * TAU two_step_params
   \<and> b64 (2 * TAU two_step_params) = 2 * TAU two_step_params
   \<and> num_time_steps two_step_params = 2
   \<and> (\<exists>s. main two_step_params (example_lib Solved) = Inr s
        \<and> map kind_of (calls_in 2 (trace s)) = iteration_kinds
        \<and> calls_in 3 (trace s) = []
        \<and> count_calls KAssemble (trace s) = 2 \<and> count_calls (KDecode Press) (trace s) = 2
        \<and> TIME s = 1 \<and> FINAL_TIME two_step_params = 1)"
proof -
  have h: "0 < FINAL_TIME two_step_params" "0 < TAU two_step_params"
    "FINAL_TIME two_step_params / TAU two_step_params \<le> 2147483646"
    "b64 (FINAL_TIME two_step_params) = FINAL_TIME two_step_params"
    "b64 (TAU two_step_params) = TAU two_step_params"
    by (simp_all add: two_step_params_def source_params_def b64_values)
  have q: "\<lfloor>b64 (FINAL_TIME two_step_params / TAU two_step_params)\<rfloor> = 2"
    by (simp add: two_step_params_def source_params_def b64_values)
  have sums: "b64 (1 * TAU two_step_params) = 1 * TAU two_step_params"
    "b64 (2 * TAU two_step_params) = 2 * TAU two_step_params"
    by (simp_all add: two_step_params_def source_params_def b64_values)
  have all: "\<forall>i\<in>{1 .. 2 :: int}. b64 (of_int i * TAU two_step_params) = of_int i * TAU two_step_params"
  proof
    fix i :: int assume "i \<in> {1 .. 2}"
    then have "i = 1 \<or> i = 2" by auto
    then show "b64 (of_int i * TAU two_step_params) = of_int i * TAU two_step_params"
      using sums by auto
  qed
  have q': "TAU two_step_params = 1 / 2" "FINAL_TIME two_step_params = 1"
    by (simp_all add: two_step_params_def source_params_def)
  from main_loop_runs_whole_quotient_of_steps[OF h example_returns(2,1,3), unfolded q]
  obtain s where s: "main two_step_params (example_lib Solved) = Inr s"
    and k: "\<And>i. map kind_of (calls_in i (trace s)) =
         (if 1 \<le> i \<and> i \<le> 2 then iteration_kinds else if i = 0 then setup_kinds else [])"
    and c: "count_calls KAssemble (trace s) = nat 2" "\<And>f. count_calls (KDecode f) (trace s) = nat 2"
    and t: "(\<forall>i\<in>{1 .. 2 :: int}. b64 (of_int i * TAU two_step_params) = of_int i * TAU two_step_params)
       \<longrightarrow> TIME s = of_int 2 * TAU two_step_params"
    by blast
  have "map kind_of (calls_in 2 (trace s)) = iteration_kinds" using k[of 2] by simp
  moreover have "calls_in 3 (trace s) = []" using k[of 3] by simp
  moreover have "TIME s = 1" using t all q' by simp
  ultimately show ?thesis using h example_returns s c sums nts_two q'(2) by auto
qed

text \<open>
  Claim C2 as stated fails: with final time 1 and step 3/4, both of them \<open>double\<close>s, the
  ceiling of the quotient is 2, and the loop runs once.
\<close>

theorem ceiling_iteration_count_counterexample:
  "0 < FINAL_TIME uneven_params \<and> 0 < TAU uneven_params
   \<and> b64 (FINAL_TIME uneven_params) = FINAL_TIME uneven_params
   \<and> b64 (TAU uneven_params) = TAU uneven_params
   \<and> \<lceil>FINAL_TIME uneven_params / TAU uneven_params\<rceil> = 2
   \<and> num_time_steps uneven_params = 1
   \<and> (\<exists>s. main uneven_params (example_lib Solved) = Inr s
        \<and> count_calls KAdvance (trace s) = 1 \<and> count_calls KAssemble (trace s) = 1
        \<and> count_calls KSolve (trace s) = 1 \<and> calls_in 2 (trace s) = [])"
proof -
  obtain s where s: "main uneven_params (example_lib Solved) = Inr s"
    and sh: "shaped uneven_params (1 + 1) s"
    using main_run_shape[OF uneven_facts(1,2) example_returns(2,1,3)] uneven_facts(3)
    by auto
  have "map kind_of (calls_in 2 (trace s)) = []" using sh by (simp add: shaped_def)
  then have "calls_in 2 (trace s) = []" by simp
  moreover have "count_calls KAdvance (trace s) = 1" "count_calls KAssemble (trace s) = 1"
     "count_calls KSolve (trace s) = 1"
    using sh by (simp_all add: shaped_def)
  moreover have "0 \<le> b64 (FINAL_TIME uneven_params / TAU uneven_params)"
    using uneven_facts(1,2) by (intro b64_nonneg) simp
  then have "num_time_steps uneven_params = 1"
    using uneven_facts(3) by (simp add: num_time_steps_def double_to_int_def)
  ultimately show ?thesis using s uneven_facts by auto
qed

section \<open>The linearization anchor\<close>

lemma anchored_extend:
  assumes fd: "feeds L j s" and tr: "trace s' = trace s @ map (stamp j t) cs"
    and A: "\<And>xp yp. Assemble xp yp \<in> set cs \<Longrightarrow> xp = xprev s \<and> yp = yprev s"
    and S: "\<And>sys. Solve sys \<in> set cs \<Longrightarrow> Assemble (xprev s) (yprev s) \<in> set cs \<and>
              (\<exists>sx sy sp. assemble L t sx sy sp (xprev s) (yprev s) = Some sys)"
    and D: "\<And>f u v. Decode f u \<in> set cs \<Longrightarrow> Decode f v \<in> set cs \<Longrightarrow> u = v"
  shows "anchored L (trace s')"
proof -
  from fd have lt: "\<forall>e\<in>set (trace s). ev_iter e < j" and an: "anchored L (trace s)"
    and z: "j = 1 \<Longrightarrow> xprev s = set_zero L \<and> yprev s = set_zero L"
    and d: "j \<noteq> 1 \<Longrightarrow> Decode XVel (xprev s) \<in> set (calls_in (j - 1) (trace s)) \<and>
                Decode YVel (yprev s) \<in> set (calls_in (j - 1) (trace s))"
    by (auto simp: feeds_def)
  have an1: "\<And>e xp yp. e \<in> set (trace s) \<Longrightarrow> ev_call e = Assemble xp yp \<Longrightarrow>
        (ev_iter e = 1 \<longrightarrow> xp = set_zero L \<and> yp = set_zero L) \<and>
        (ev_iter e \<noteq> 1 \<longrightarrow>
           Decode XVel xp \<in> set (calls_in (ev_iter e - 1) (trace s)) \<and>
           Decode YVel yp \<in> set (calls_in (ev_iter e - 1) (trace s)))"
    using an unfolding anchored_def by blast
  have ci: "\<And>i. calls_in i (trace s') = calls_in i (trace s) @ (if i = j then cs else [])"
    unfolding tr by (simp only: calls_in_append calls_in_stamp)
  have old: "\<And>i. i < j \<Longrightarrow> calls_in i (trace s') = calls_in i (trace s)"
    using ci by simp
  have new: "calls_in j (trace s') = cs"
    using ci[of j] calls_in_empty[OF lt, of j] by simp
  have mem: "\<And>e. e \<in> set (trace s') \<Longrightarrow> e \<in> set (trace s) \<or> (\<exists>c\<in>set cs. e = stamp j t c)"
    unfolding tr by auto
  have 1: "\<forall>e\<in>set (trace s'). \<forall>xp yp. ev_call e = Assemble xp yp \<longrightarrow>
        (ev_iter e = 1 \<longrightarrow> xp = set_zero L \<and> yp = set_zero L) \<and>
        (ev_iter e \<noteq> 1 \<longrightarrow>
           Decode XVel xp \<in> set (calls_in (ev_iter e - 1) (trace s')) \<and>
           Decode YVel yp \<in> set (calls_in (ev_iter e - 1) (trace s')))"
  proof (intro ballI allI impI)
    fix e xp yp assume e: "e \<in> set (trace s')" and c: "ev_call e = Assemble xp yp"
    from mem[OF e] show "(ev_iter e = 1 \<longrightarrow> xp = set_zero L \<and> yp = set_zero L) \<and>
        (ev_iter e \<noteq> 1 \<longrightarrow>
           Decode XVel xp \<in> set (calls_in (ev_iter e - 1) (trace s')) \<and>
           Decode YVel yp \<in> set (calls_in (ev_iter e - 1) (trace s')))"
    proof
      assume eo: "e \<in> set (trace s)"
      then have "ev_iter e - 1 < j" using lt by fastforce
      then show ?thesis using an1[OF eo c] old[of "ev_iter e - 1"] by simp
    next
      assume "\<exists>c\<in>set cs. e = stamp j t c"
      then have ej: "ev_iter e = j" and "Assemble xp yp \<in> set cs" using c by auto
      then have xy: "xp = xprev s \<and> yp = yprev s" using A by blast
      show ?thesis using ej xy z d old[of "j - 1"] by auto
    qed
  qed
  have 2: "\<forall>i f u v. Decode f u \<in> set (calls_in i (trace s')) \<and>
      Decode f v \<in> set (calls_in i (trace s')) \<longrightarrow> u = v"
  proof (intro allI impI)
    fix i f u v
    assume a: "Decode f u \<in> set (calls_in i (trace s')) \<and> Decode f v \<in> set (calls_in i (trace s'))"
    show "u = v"
    proof (cases "i = j")
      case True
      then show ?thesis using a new D by auto
    next
      case False
      then have "calls_in i (trace s') = calls_in i (trace s)" using ci[of i] by simp
      then show ?thesis using a an unfolding anchored_def by metis
    qed
  qed
  have 3: "\<forall>e\<in>set (trace s'). \<forall>sys. ev_call e = Solve sys \<longrightarrow>
        (\<exists>xp yp sx sy sp. Assemble xp yp \<in> set (calls_in (ev_iter e) (trace s')) \<and>
           assemble L (ev_time e) sx sy sp xp yp = Some sys)"
  proof (intro ballI allI impI)
    fix e sys assume e: "e \<in> set (trace s')" and c: "ev_call e = Solve sys"
    from mem[OF e] show "\<exists>xp yp sx sy sp. Assemble xp yp \<in> set (calls_in (ev_iter e) (trace s')) \<and>
           assemble L (ev_time e) sx sy sp xp yp = Some sys"
    proof
      assume eo: "e \<in> set (trace s)"
      then have "ev_iter e < j" using lt by fastforce
      then have "calls_in (ev_iter e) (trace s') = calls_in (ev_iter e) (trace s)" by (rule old)
      moreover have "\<exists>xp yp sx sy sp. Assemble xp yp \<in> set (calls_in (ev_iter e) (trace s)) \<and>
           assemble L (ev_time e) sx sy sp xp yp = Some sys"
        using an eo c unfolding anchored_def by blast
      ultimately show ?thesis by simp
    next
      assume "\<exists>c\<in>set cs. e = stamp j t c"
      then have ej: "ev_iter e = j" "ev_time e = t" and sc: "Solve sys \<in> set cs" using c by auto
      from S[OF sc] obtain sx sy sp where
        "Assemble (xprev s) (yprev s) \<in> set cs"
        "assemble L t sx sy sp (xprev s) (yprev s) = Some sys" by blast
      then have "Assemble (xprev s) (yprev s) \<in> set (calls_in (ev_iter e) (trace s')) \<and>
           assemble L (ev_time e) sx sy sp (xprev s) (yprev s) = Some sys"
        using ej new by simp
      then show ?thesis by blast
    qed
  qed
  show ?thesis unfolding anchored_def using 1 2 3 by blast
qed

lemma feeds_Inr:
  assumes fd: "feeds L j s" and st: "step p L j s = Inr s'"
  shows "feeds L (j + 1) s'"
proof -
  from step_Inr[OF st] obtain sys X ps where
    a: "assemble L (TIME s + TAU p) (xvel s') (yvel s') (press s') (xprev s) (yprev s) = Some sys"
    and tr: "trace s' = trace s @ map (stamp j (TIME s + TAU p))
        (Advance # assign_calls L s @ [Assemble (xprev s) (yprev s), Solve sys,
           Decode XVel (xprev s'), Decode YVel (yprev s'), Decode Press ps])"
    by blast
  let ?cs = "Advance # assign_calls L s @ [Assemble (xprev s) (yprev s), Solve sys,
           Decode XVel (xprev s'), Decode YVel (yprev s'), Decode Press ps]"
  have an: "anchored L (trace s')"
  proof (rule anchored_extend[OF fd tr])
    fix xp yp assume "Assemble xp yp \<in> set ?cs"
    then show "xp = xprev s \<and> yp = yprev s" by auto
  next
    fix sys' assume "Solve sys' \<in> set ?cs"
    then have "sys' = sys" by auto
    then show "Assemble (xprev s) (yprev s) \<in> set ?cs \<and>
              (\<exists>sx sy sp. assemble L (TIME s + TAU p) sx sy sp (xprev s) (yprev s) = Some sys')"
      using a by auto
  next
    fix f u v assume "Decode f u \<in> set ?cs" "Decode f v \<in> set ?cs"
    then show "u = v" by auto
  qed
  from fd have lt: "\<forall>e\<in>set (trace s). ev_iter e < j" by (simp add: feeds_def)
  have ci: "calls_in j (trace s') = calls_in j (trace s) @ ?cs"
    unfolding tr by (simp only: calls_in_append calls_in_stamp simp_thms if_True)
  have "Decode XVel (xprev s') \<in> set (calls_in j (trace s'))"
    "Decode YVel (yprev s') \<in> set (calls_in j (trace s'))"
    unfolding ci by simp_all
  moreover have "\<forall>e\<in>set (trace s'). ev_iter e < j + 1" using lt by (auto simp: tr)
  moreover have "1 \<le> j" using fd by (simp add: feeds_def)
  ultimately show ?thesis using an by (auto simp: feeds_def)
qed

lemma feeds_Inl:
  assumes fd: "feeds L j s" and st: "step p L j s = Inl (e, s')"
  shows "anchored L (trace s')"
proof -
  from step_Inl_trace[OF st] obtain cs where
    tr: "trace s' = trace s @ map (stamp j (TIME s + TAU p))
        (Advance # assign_calls L s @ Assemble (xprev s) (yprev s) # cs)"
    and cs: "cs = [] \<or> (\<exists>sys. cs = [Solve sys] \<and>
       assemble L (TIME s + TAU p) (xvel s') (yvel s') (press s') (xprev s) (yprev s) = Some sys)"
    by blast
  let ?cs = "Advance # assign_calls L s @ Assemble (xprev s) (yprev s) # cs"
  show ?thesis
  proof (rule anchored_extend[OF fd tr])
    fix xp yp assume "Assemble xp yp \<in> set ?cs"
    then show "xp = xprev s \<and> yp = yprev s" using cs by auto
  next
    fix sys' assume "Solve sys' \<in> set ?cs"
    then have "cs = [Solve sys'] \<and>
       assemble L (TIME s + TAU p) (xvel s') (yvel s') (press s') (xprev s) (yprev s) = Some sys'"
      using cs by auto
    then show "Assemble (xprev s) (yprev s) \<in> set ?cs \<and>
              (\<exists>sx sy sp. assemble L (TIME s + TAU p) sx sy sp (xprev s) (yprev s) = Some sys')"
      by auto
  next
    fix f u v assume "Decode f u \<in> set ?cs" "Decode f v \<in> set ?cs"
    then show "u = v" using cs by auto
  qed
qed

lemma anchored_main: "anchored L (trace (final_state (main p L)))"
proof (cases "import_hermes2d L \<noteq> 0")
  case True
  then show ?thesis by (simp add: main_def anchored_def)
next
  case False
  let ?s0 = "assign_all L 0 (initial_state p L)"
  have init: "feeds L 1 ?s0"
    by (auto simp: feeds_def anchored_def)
  have "anchored L (trace (final_state (main_loop p L 1 (num_time_steps p) ?s0)))"
  proof (rule main_loop_final_induct[where P = "feeds L" and Q = "\<lambda>s. anchored L (trace s)"])
    show "feeds L 1 ?s0" by (rule init)
  next
    fix j t t' assume "feeds L j t" "step p L j t = Inr t'"
    then show "feeds L (j + 1) t'" by (rule feeds_Inr)
  next
    fix j t e t' assume "feeds L j t" "step p L j t = Inl (e, t')"
    then show "anchored L (trace t')" by (rule feeds_Inl)
  next
    fix j t assume "feeds L j (t :: 'a state)" then show "anchored L (trace t)" by (simp add: feeds_def)
  qed
  then show ?thesis using False by (simp add: main_def)
qed

lemma calls_in_iff: "c \<in> set (calls_in i tr) \<longleftrightarrow> (\<exists>e\<in>set tr. ev_iter e = i \<and> ev_call e = c)"
  by (auto simp: calls_in_def)

lemma anchored_solve:
  assumes an: "anchored L tr" and e: "e \<in> set tr" and c: "ev_call e = Solve sys"
  shows "\<exists>xp yp sx sy sp.
      (ev_iter e = 1 \<longrightarrow> xp = set_zero L \<and> yp = set_zero L) \<and>
      (ev_iter e \<noteq> 1 \<longrightarrow> Decode XVel xp \<in> set (calls_in (ev_iter e - 1) tr) \<and>
                         Decode YVel yp \<in> set (calls_in (ev_iter e - 1) tr)) \<and>
      assemble L (ev_time e) sx sy sp xp yp = Some sys"
proof -
  from an e c obtain xp yp sx sy sp where
    a: "Assemble xp yp \<in> set (calls_in (ev_iter e) tr)"
    and s: "assemble L (ev_time e) sx sy sp xp yp = Some sys"
    unfolding anchored_def by blast
  from a obtain e' where e': "e' \<in> set tr" "ev_iter e' = ev_iter e" "ev_call e' = Assemble xp yp"
    unfolding calls_in_iff by blast
  have "(ev_iter e' = 1 \<longrightarrow> xp = set_zero L \<and> yp = set_zero L) \<and>
      (ev_iter e' \<noteq> 1 \<longrightarrow> Decode XVel xp \<in> set (calls_in (ev_iter e' - 1) tr) \<and>
                         Decode YVel yp \<in> set (calls_in (ev_iter e' - 1) tr))"
    using an e'(1,3) unfolding anchored_def by blast
  then have "(ev_iter e = 1 \<longrightarrow> xp = set_zero L \<and> yp = set_zero L) \<and>
      (ev_iter e \<noteq> 1 \<longrightarrow> Decode XVel xp \<in> set (calls_in (ev_iter e - 1) tr) \<and>
                         Decode YVel yp \<in> set (calls_in (ev_iter e - 1) tr)) \<and>
      assemble L (ev_time e) sx sy sp xp yp = Some sys"
    using s unfolding e'(2) by blast
  then show ?thesis by blast
qed

section \<open>Degrees of freedom\<close>

lemma assign_all_spaces:
  "first_dof (xvel (assign_all L i s)) = 0"
  "num_dofs (xvel (assign_all L i s)) = int (count_dofs L XVel (sp_order (xvel s)))"
  "first_dof (yvel (assign_all L i s)) = int (count_dofs L XVel (sp_order (xvel s)))"
  "num_dofs (yvel (assign_all L i s)) = int (count_dofs L YVel (sp_order (yvel s)))"
  "first_dof (press (assign_all L i s)) =
     int (count_dofs L XVel (sp_order (xvel s))) + int (count_dofs L YVel (sp_order (yvel s)))"
  "num_dofs (press (assign_all L i s)) = int (count_dofs L Press (sp_order (press s)))"
  "ndofs (assign_all L i s) =
     int (count_dofs L XVel (sp_order (xvel s))) + int (count_dofs L YVel (sp_order (yvel s)))
     + int (count_dofs L Press (sp_order (press s)))"
  "bc_time (xvel (assign_all L i s)) = TIME s"
  "bc_time (yvel (assign_all L i s)) = TIME s"
  "bc_time (press (assign_all L i s)) = TIME s"
  by (simp_all add: assign_all_def assign_dofs_def Let_def)

lemma step_spaces:
  assumes "step p L i s = Inr s'"
  shows "xvel s' = xvel (assign_all L i (s\<lparr>TIME := TIME s + TAU p\<rparr>))"
    "yvel s' = yvel (assign_all L i (s\<lparr>TIME := TIME s + TAU p\<rparr>))"
    "press s' = press (assign_all L i (s\<lparr>TIME := TIME s + TAU p\<rparr>))"
    "ndofs s' = ndofs (assign_all L i (s\<lparr>TIME := TIME s + TAU p\<rparr>))"
  using assms
  by (auto simp: step_def Let_def assign_all_def assign_dofs_def split: option.splits)

lemma spec_assemble_dim:
  assumes "spec_assemble p S t sx sy sp xp yp = Some sys"
  shows "dim sys = sys_dimension [sx, sy, sp] \<and> int (length (rhs sys)) = sys_dimension [sx, sy, sp]"
  using assms
  by (auto simp: spec_assemble_def Let_def sys_dimension_def split: if_splits prod.splits)

lemma spec_assemble_returns:
  assumes "0 < num_dofs sx" "0 < num_dofs sy" "0 < num_dofs sp"
  shows "\<exists>sys. spec_assemble p S t sx sy sp xp yp = Some sys"
  using assms by (simp add: spec_assemble_def Let_def split: prod.splits)

text \<open>
  Claim C5. Whatever the mesh and the orders give as numbers of degrees of freedom
  (\<open>count_dofs\<close> is arbitrary; the total is taken to fit an \<open>int\<close>), after the three
  \<open>assign_dofs\<close> calls, before the loop as in every step, the first space starts at 0,
  each further space starts where the one before ends, the three index ranges are
  pairwise disjoint and together make up \<open>0 ..< ndofs\<close>, and \<open>ndofs\<close> is the sum of the
  three counts, which is the dimension of the system assembled over these spaces: of its
  matrix and of its RHS vector.
\<close>

theorem dof_ranges_are_disjoint_and_contiguous:
  assumes "int (count_dofs L XVel (sp_order (xvel s))) + int (count_dofs L YVel (sp_order (yvel s)))
     + int (count_dofs L Press (sp_order (press s))) < 2 ^ 31"
    and "s' = assign_all L i s \<or> step p L i s = Inr s'"
  shows "first_dof (xvel s') = 0
    \<and> first_dof (yvel s') = first_dof (xvel s') + num_dofs (xvel s')
    \<and> first_dof (press s') = first_dof (yvel s') + num_dofs (yvel s')
    \<and> dof_range (xvel s') \<inter> dof_range (yvel s') = {}
    \<and> dof_range (xvel s') \<inter> dof_range (press s') = {}
    \<and> dof_range (yvel s') \<inter> dof_range (press s') = {}
    \<and> dof_range (xvel s') \<union> dof_range (yvel s') \<union> dof_range (press s') = {0 ..< ndofs s'}
    \<and> ndofs s' = num_dofs (xvel s') + num_dofs (yvel s') + num_dofs (press s')
    \<and> ndofs s' = sys_dimension [xvel s', yvel s', press s']
    \<and> (\<forall>sys. spec_assemble p S t (xvel s') (yvel s') (press s') xp yp = Some sys \<longrightarrow>
          dim sys = ndofs s' \<and> int (length (rhs sys)) = ndofs s')"
proof -
  let ?t = "s\<lparr>TIME := TIME s + TAU p\<rparr>"
  from assms(2) have "\<exists>s0. sp_order (xvel s0) = sp_order (xvel s) \<and> xvel s' = xvel (assign_all L i s0)
     \<and> yvel s' = yvel (assign_all L i s0) \<and> press s' = press (assign_all L i s0)
     \<and> ndofs s' = ndofs (assign_all L i s0)"
  proof
    assume "s' = assign_all L i s" then show ?thesis by blast
  next
    assume "step p L i s = Inr s'"
    from step_spaces[OF this] show ?thesis by (intro exI[of _ ?t]) simp
  qed
  then obtain s0 where s0: "xvel s' = xvel (assign_all L i s0)"
     "yvel s' = yvel (assign_all L i s0)" "press s' = press (assign_all L i s0)"
     "ndofs s' = ndofs (assign_all L i s0)" by blast
  have d: "ndofs s' = sys_dimension [xvel s', yvel s', press s']"
    unfolding s0 by (simp add: assign_all_spaces sys_dimension_def)
  have a: "\<forall>sys. spec_assemble p S t (xvel s') (yvel s') (press s') xp yp = Some sys \<longrightarrow>
          dim sys = ndofs s' \<and> int (length (rhs sys)) = ndofs s'"
    using spec_assemble_dim[of p S t "xvel s'" "yvel s'" "press s'" xp yp] d by simp
  have "first_dof (xvel s') = 0
    \<and> first_dof (yvel s') = first_dof (xvel s') + num_dofs (xvel s')
    \<and> first_dof (press s') = first_dof (yvel s') + num_dofs (yvel s')
    \<and> dof_range (xvel s') \<inter> dof_range (yvel s') = {}
    \<and> dof_range (xvel s') \<inter> dof_range (press s') = {}
    \<and> dof_range (yvel s') \<inter> dof_range (press s') = {}
    \<and> dof_range (xvel s') \<union> dof_range (yvel s') \<union> dof_range (press s') = {0 ..< ndofs s'}
    \<and> ndofs s' = num_dofs (xvel s') + num_dofs (yvel s') + num_dofs (press s')"
    unfolding s0 by (auto simp: assign_all_spaces dof_range_def)
  then show ?thesis using d a by blast
qed

text \<open>C5 on the spaces of the small library instance.\<close>

theorem dof_ranges_are_disjoint_and_contiguous_witness:
  "int (count_dofs (example_lib Solved) XVel (sp_order (xvel (initial_state source_params (example_lib Solved)))))
     + int (count_dofs (example_lib Solved) YVel (sp_order (yvel (initial_state source_params (example_lib Solved)))))
     + int (count_dofs (example_lib Solved) Press (sp_order (press (initial_state source_params (example_lib Solved))))) < 2 ^ 31
   \<and> dof_range (xvel (assign_all (example_lib Solved) 0 (initial_state source_params (example_lib Solved)))) = {0 ..< 2}
   \<and> dof_range (yvel (assign_all (example_lib Solved) 0 (initial_state source_params (example_lib Solved)))) = {2 ..< 4}
   \<and> dof_range (press (assign_all (example_lib Solved) 0 (initial_state source_params (example_lib Solved)))) = {4 ..< 5}
   \<and> dof_range (xvel (assign_all (example_lib Solved) 0 (initial_state source_params (example_lib Solved))))
      \<inter> dof_range (yvel (assign_all (example_lib Solved) 0 (initial_state source_params (example_lib Solved)))) = {}
   \<and> sys_dimension [xvel (assign_all (example_lib Solved) 0 (initial_state source_params (example_lib Solved))),
        yvel (assign_all (example_lib Solved) 0 (initial_state source_params (example_lib Solved))),
        press (assign_all (example_lib Solved) 0 (initial_state source_params (example_lib Solved)))] = 5
   \<and> (\<exists>sys. spec_assemble source_params example_services 0
          (xvel (assign_all (example_lib Solved) 0 (initial_state source_params (example_lib Solved))))
          (yvel (assign_all (example_lib Solved) 0 (initial_state source_params (example_lib Solved))))
          (press (assign_all (example_lib Solved) 0 (initial_state source_params (example_lib Solved))))
          0 0 = Some sys
        \<and> dim sys = 5 \<and> length (rhs sys) = 5)"
proof -
  let ?L = "example_lib Solved"
  let ?init = "initial_state source_params ?L"
  let ?a = "assign_all ?L 0 ?init"
  have h: "int (count_dofs ?L XVel (sp_order (xvel ?init))) + int (count_dofs ?L YVel (sp_order (yvel ?init)))
     + int (count_dofs ?L Press (sp_order (press ?init))) < 2 ^ 31"
    by (simp add: example_lib_def)
  have n: "ndofs ?a = 5" by (simp add: example_assign)
  have pos: "0 < num_dofs (xvel ?a)" "0 < num_dofs (yvel ?a)" "0 < num_dofs (press ?a)"
    by (simp_all add: example_assign)
  obtain sys where sys: "spec_assemble source_params example_services 0
      (xvel ?a) (yvel ?a) (press ?a) 0 0 = Some sys"
    using spec_assemble_returns[OF pos, where p = source_params and S = example_services
        and t = 0 and xp = 0 and yp = 0]
    by blast
  note th = dof_ranges_are_disjoint_and_contiguous[where L = ?L and s = ?init and s' = ?a
      and i = 0 and p = source_params and S = example_services and t = 0 and xp = 0 and yp = 0,
      OF h]
  have d: "dim sys = 5 \<and> length (rhs sys) = 5" using th sys n by simp
  have r: "dof_range (xvel ?a) \<inter> dof_range (yvel ?a) = {}"
    "sys_dimension [xvel ?a, yvel ?a, press ?a] = 5"
    using th n by simp_all
  have e: "dof_range (xvel ?a) = {0 ..< 2}" "dof_range (yvel ?a) = {2 ..< 4}"
    "dof_range (press ?a) = {4 ..< 5}"
    by (simp_all add: example_assign dof_range_def)
  show ?thesis using h e r sys d by blast
qed

section \<open>Failing solves and assemblies\<close>

lemma assign_all_emit:
  "xvel (assign_all L i (emit j c s)) = xvel (assign_all L i s)"
  "yvel (assign_all L i (emit j c s)) = yvel (assign_all L i s)"
  "press (assign_all L i (emit j c s)) = press (assign_all L i s)"
  by (simp_all add: assign_all_def assign_dofs_def Let_def)

lemma step_returned:
  assumes a: "assemble L (TIME s + TAU p)
       (xvel (assign_all L i (s\<lparr>TIME := TIME s + TAU p\<rparr>)))
       (yvel (assign_all L i (s\<lparr>TIME := TIME s + TAU p\<rparr>)))
       (press (assign_all L i (s\<lparr>TIME := TIME s + TAU p\<rparr>))) (xprev s) (yprev s) = Some sys"
    and r: "returned_vector (spsolve L sys) = Some X"
  shows "\<exists>s'. step p L i s = Inr s'
     \<and> xprev s' = set_fe_solution L XVel (xvel (assign_all L i (s\<lparr>TIME := TIME s + TAU p\<rparr>))) X
     \<and> yprev s' = set_fe_solution L YVel (yvel (assign_all L i (s\<lparr>TIME := TIME s + TAU p\<rparr>))) X"
  using a r
  by (simp add: step_def Let_def assign_all_emit)

lemma raising_step:
  "\<exists>s'. step two_step_params raising_lib 1 s = Inl (SolveDidNotReturn, s')"
  unfolding step_def raising_lib_def example_assign
  by (simp add: example_lib_def Let_def)

text \<open>
  Claim C9, as amended. main has no failed state and never inspects the outcome of the
  solve. When the solve signals a failure and returns, the vector it leaves is decoded and
  becomes the previous-step velocity of the next iteration, as after a successful solve.
  Only an assembly or a solve that does not return (an exception, caught nowhere) ends the
  run: at that iteration, without retry (one assembly, at most one solve), with the
  previous-step fields untouched and the time already advanced to the failing step.
\<close>

theorem solve_outcome_is_not_inspected:
  "(assemble L (TIME s + TAU p)
       (xvel (assign_all L i (s\<lparr>TIME := TIME s + TAU p\<rparr>)))
       (yvel (assign_all L i (s\<lparr>TIME := TIME s + TAU p\<rparr>)))
       (press (assign_all L i (s\<lparr>TIME := TIME s + TAU p\<rparr>))) (xprev s) (yprev s) = Some sys
     \<and> spsolve L sys = SolveFailed X \<longrightarrow>
     (\<exists>s'. step p L i s = Inr s'
        \<and> xprev s' = set_fe_solution L XVel (xvel (assign_all L i (s\<lparr>TIME := TIME s + TAU p\<rparr>))) X
        \<and> yprev s' = set_fe_solution L YVel (yvel (assign_all L i (s\<lparr>TIME := TIME s + TAU p\<rparr>))) X))
   \<and> (step p L i s = Inl (e, s') \<and> i \<le> n \<longrightarrow>
        main_loop p L i n s = Inl (e, s')
        \<and> xprev s' = xprev s \<and> yprev s' = yprev s \<and> TIME s' = TIME s + TAU p
        \<and> count_calls KAssemble (trace s') = count_calls KAssemble (trace s) + 1
        \<and> count_calls KSolve (trace s') \<le> count_calls KSolve (trace s) + 1
        \<and> (e = AssembleRaised \<and>
              assemble L (TIME s + TAU p) (xvel s') (yvel s') (press s') (xprev s) (yprev s) = None
            \<or> e = SolveDidNotReturn \<and>
              (\<exists>sys'. assemble L (TIME s + TAU p) (xvel s') (yvel s') (press s') (xprev s) (yprev s)
                   = Some sys' \<and> spsolve L sys' = SolveRaised)))"
proof (rule conjI; rule impI)
  assume "assemble L (TIME s + TAU p)
       (xvel (assign_all L i (s\<lparr>TIME := TIME s + TAU p\<rparr>)))
       (yvel (assign_all L i (s\<lparr>TIME := TIME s + TAU p\<rparr>)))
       (press (assign_all L i (s\<lparr>TIME := TIME s + TAU p\<rparr>))) (xprev s) (yprev s) = Some sys
     \<and> spsolve L sys = SolveFailed X"
  then show "\<exists>s'. step p L i s = Inr s'
        \<and> xprev s' = set_fe_solution L XVel (xvel (assign_all L i (s\<lparr>TIME := TIME s + TAU p\<rparr>))) X
        \<and> yprev s' = set_fe_solution L YVel (yvel (assign_all L i (s\<lparr>TIME := TIME s + TAU p\<rparr>))) X"
    using step_returned[of L s p i sys X] by simp
next
  assume h: "step p L i s = Inl (e, s') \<and> i \<le> n"
  then have st: "step p L i s = Inl (e, s')" and le: "i \<le> n" by simp_all
  have ml: "main_loop p L i n s = Inl (e, s')"
    using st le by (subst main_loop.simps) simp
  note f = step_Inl[OF st]
  from step_Inl_trace[OF st] obtain cs where
    tr: "trace s' = trace s @ map (stamp i (TIME s + TAU p))
        (Advance # assign_calls L s @ Assemble (xprev s) (yprev s) # cs)"
    and cs: "cs = [] \<or> (\<exists>sys. cs = [Solve sys] \<and>
       assemble L (TIME s + TAU p) (xvel s') (yvel s') (press s') (xprev s) (yprev s) = Some sys)"
    by blast
  have cc: "\<And>k. count_calls k (trace s') = count_calls k (trace s) +
      length (filter (\<lambda>c. kind_of c = k)
        (Advance # assign_calls L s @ Assemble (xprev s) (yprev s) # cs))"
    unfolding tr by (simp only: count_calls_append count_calls_stamp)
  have c1: "count_calls KAssemble (trace s') = count_calls KAssemble (trace s) + 1"
    using cs by (auto simp: cc)
  have c2: "count_calls KSolve (trace s') \<le> count_calls KSolve (trace s) + 1"
    using cs by (auto simp: cc)
  show "main_loop p L i n s = Inl (e, s')
        \<and> xprev s' = xprev s \<and> yprev s' = yprev s \<and> TIME s' = TIME s + TAU p
        \<and> count_calls KAssemble (trace s') = count_calls KAssemble (trace s) + 1
        \<and> count_calls KSolve (trace s') \<le> count_calls KSolve (trace s) + 1
        \<and> (e = AssembleRaised \<and>
              assemble L (TIME s + TAU p) (xvel s') (yvel s') (press s') (xprev s) (yprev s) = None
            \<or> e = SolveDidNotReturn \<and>
              (\<exists>sys'. assemble L (TIME s + TAU p) (xvel s') (yvel s') (press s') (xprev s) (yprev s)
                   = Some sys' \<and> spsolve L sys' = SolveRaised))"
    using ml f c1 c2 by blast
qed

text \<open>C9 as amended, on the small library instance with a failing and with a raising solve.\<close>

theorem solve_outcome_is_not_inspected_witness:
  "(\<exists>s sys X s'.
      assemble (example_lib SolveFailed) (TIME s + TAU two_step_params)
        (xvel (assign_all (example_lib SolveFailed) 1 (s\<lparr>TIME := TIME s + TAU two_step_params\<rparr>)))
        (yvel (assign_all (example_lib SolveFailed) 1 (s\<lparr>TIME := TIME s + TAU two_step_params\<rparr>)))
        (press (assign_all (example_lib SolveFailed) 1 (s\<lparr>TIME := TIME s + TAU two_step_params\<rparr>)))
        (xprev s) (yprev s) = Some sys
      \<and> spsolve (example_lib SolveFailed) sys = SolveFailed X
      \<and> step two_step_params (example_lib SolveFailed) 1 s = Inr s' \<and> xprev s' = take 2 X)
   \<and> (\<exists>s e s'. step two_step_params raising_lib 1 s = Inl (e, s') \<and> (1::int) \<le> 2
        \<and> main_loop two_step_params raising_lib 1 2 s = Inl (e, s') \<and> e = SolveDidNotReturn
        \<and> xprev s' = xprev s)"
proof -
  let ?L = "example_lib SolveFailed"
  let ?s = "initial_state two_step_params ?L"
  let ?sys = "\<lparr>Ap = [], Ai = [], Ax = [], dim = 5, rhs = [1 / 2, 1 / 2, 1 / 2, 1 / 2, 1 / 2]\<rparr>"
  let ?X = "[1 / 2, 1 / 2, 1 / 2, 1 / 2, 1 / 2] :: real list"
  have tau: "TAU two_step_params = 1 / 2" by (simp add: two_step_params_def source_params_def)
  have a: "assemble ?L (TIME ?s + TAU two_step_params)
        (xvel (assign_all ?L 1 (?s\<lparr>TIME := TIME ?s + TAU two_step_params\<rparr>)))
        (yvel (assign_all ?L 1 (?s\<lparr>TIME := TIME ?s + TAU two_step_params\<rparr>)))
        (press (assign_all ?L 1 (?s\<lparr>TIME := TIME ?s + TAU two_step_params\<rparr>)))
        (xprev ?s) (yprev ?s) = Some ?sys"
    by (simp add: example_lib_def tau)
  have f: "spsolve ?L ?sys = SolveFailed ?X" by (simp add: example_lib_def)
  from solve_outcome_is_not_inspected[where L = ?L and s = ?s and p = two_step_params
      and i = 1 and sys = ?sys and X = ?X] a f
  obtain s' where s': "step two_step_params ?L 1 ?s = Inr s'"
    "xprev s' = set_fe_solution ?L XVel (xvel (assign_all ?L 1 (?s\<lparr>TIME := TIME ?s + TAU two_step_params\<rparr>))) ?X"
    by blast
  have x: "xprev s' = take 2 ?X" unfolding s'(2) example_assign by (simp add: example_lib_def)
  obtain t' where r: "step two_step_params raising_lib 1 ?s = Inl (SolveDidNotReturn, t')"
    using raising_step by blast
  from solve_outcome_is_not_inspected[where L = raising_lib and s = ?s and p = two_step_params
      and i = 1 and e = SolveDidNotReturn and s' = t' and n = 2] r
  have m: "main_loop two_step_params raising_lib 1 2 ?s = Inl (SolveDidNotReturn, t')"
    "xprev t' = xprev ?s" by simp_all
  show ?thesis
    apply (intro conjI)
     apply (rule exI[of _ ?s], rule exI[of _ ?sys], rule exI[of _ ?X], rule exI[of _ s'])
    using a f s'(1) x apply blast
    apply (rule exI[of _ ?s], rule exI[of _ SolveDidNotReturn], rule exI[of _ t'])
    using r m apply simp
    done
qed

text \<open>
  Claim C9 as stated fails: with a solve that signals failure in every iteration, main
  still returns normally after both iterations, and the vector of the failed solve of
  iteration 1 is the anchor of the assembly of iteration 2.
\<close>

theorem failed_solve_is_fed_forward_counterexample:
  "\<exists>s. main two_step_params (example_lib SolveFailed) = Inr s
     \<and> Solve \<lparr>Ap = [], Ai = [], Ax = [], dim = 5, rhs = [1 / 2, 1 / 2, 1 / 2, 1 / 2, 1 / 2]\<rparr>
          \<in> set (calls_in 1 (trace s))
     \<and> spsolve (example_lib SolveFailed)
          \<lparr>Ap = [], Ai = [], Ax = [], dim = 5, rhs = [1 / 2, 1 / 2, 1 / 2, 1 / 2, 1 / 2]\<rparr>
        = SolveFailed [1 / 2, 1 / 2, 1 / 2, 1 / 2, 1 / 2]
     \<and> Decode XVel [1 / 2, 1 / 2] \<in> set (calls_in 1 (trace s))
     \<and> Assemble [1 / 2, 1 / 2] [1 / 2, 1 / 2] \<in> set (calls_in 2 (trace s))
     \<and> count_calls KAdvance (trace s) = 2 \<and> count_calls KSolve (trace s) = 2"
proof -
  obtain s where s: "main two_step_params (example_lib SolveFailed) = Inr s"
    and t: "trace s = map (stamp 0 0) example_setup_calls
          @ map (stamp 1 (1 / 2)) (example_calls (1 / 2) [0, 0] [0, 0])
          @ map (stamp 2 1) (example_calls 1 [1 / 2, 1 / 2] [1 / 2, 1 / 2])"
    using example_run[of SolveFailed] by auto
  have c1: "calls_in 1 (trace s) = example_calls (1 / 2) [0, 0] [0, 0]"
    and c2: "calls_in 2 (trace s) = example_calls 1 [1 / 2, 1 / 2] [1 / 2, 1 / 2]"
    unfolding t by (simp_all only: calls_in_append calls_in_stamp) simp_all
  have n: "count_calls KAdvance (trace s) = 2" "count_calls KSolve (trace s) = 2"
    unfolding t by (simp_all only: count_calls_append count_calls_stamp)
      (simp_all add: example_calls_def example_setup_calls_def)
  have f: "spsolve (example_lib SolveFailed)
          \<lparr>Ap = [], Ai = [], Ax = [], dim = 5, rhs = [1 / 2, 1 / 2, 1 / 2, 1 / 2, 1 / 2]\<rparr>
        = SolveFailed [1 / 2, 1 / 2, 1 / 2, 1 / 2, 1 / 2]"
    by (simp add: example_lib_def)
  show ?thesis
    using s n f unfolding c1 c2 by (intro exI[of _ s]) (simp add: c1 c2 example_calls_def)
qed

section \<open>Symmetric and antisymmetric terms\<close>

lemma fold_invariant:
  assumes "P A" and "\<And>x A. x \<in> set xs \<Longrightarrow> P A \<Longrightarrow> P (f x A)"
  shows "P (fold f xs A)"
  using assms by (induction xs arbitrary: A) auto

lemma add_pair_Some: "add_pair (Some c) gi gj v A = add_entry gj gi (c * v) (add_entry gi gj v A)"
  by (simp add: add_pair_def)

lemma add_entry_apply: "add_entry i j v A (a, b) = A (a, b) + (if (a, b) = (i, j) then v else 0)"
  unfolding add_entry_def fun_upd_def by simp

lemma add_pair_apply:
  "add_pair (Some c) gi gj v A (a, b) =
     A (a, b) + (if (a, b) = (gi, gj) then v else 0) + (if (a, b) = (gj, gi) then c * v else 0)"
  unfolding add_pair_Some add_entry_apply by simp

lemma symmetric_add_diag:
  assumes "symmetric A"
  shows "symmetric (add_entry g g v A)"
  unfolding symmetric_def
proof (intro allI)
  fix i j
  have e: "A (i, j) = A (j, i)" using assms unfolding symmetric_def by blast
  have c: "((i, j) = (g, g)) = ((j, i) = (g, g))" by auto
  show "add_entry g g v A (i, j) = add_entry g g v A (j, i)"
    unfolding add_entry_apply e c by simp
qed

lemma symmetric_add_pair:
  assumes "symmetric A"
  shows "symmetric (add_pair (Some 1) gi gj v A)"
  unfolding symmetric_def
proof (intro allI)
  fix i j
  have e: "A (i, j) = A (j, i)" using assms unfolding symmetric_def by blast
  have c: "((i, j) = (gi, gj)) = ((j, i) = (gj, gi))" "((i, j) = (gj, gi)) = ((j, i) = (gi, gj))"
    by auto
  show "add_pair (Some 1) gi gj v A (i, j) = add_pair (Some 1) gi gj v A (j, i)"
    unfolding add_pair_apply e c by simp
qed

lemma skew_add_pair:
  assumes "skew A"
  shows "skew (add_pair (Some (- 1)) gi gj v A)"
  unfolding skew_def
proof (intro allI)
  fix i j
  have e: "A (j, i) = - A (i, j)" using assms unfolding skew_def by blast
  have c: "((j, i) = (gi, gj)) = ((i, j) = (gj, gi))" "((j, i) = (gj, gi)) = ((i, j) = (gi, gj))"
    by auto
  define p where "p = (if (i, j) = (gi, gj) then v else 0)"
  define q where "q = (if (i, j) = (gj, gi) then v else 0)"
  have l: "add_pair (Some (- 1)) gi gj v A (j, i) = A (j, i) + q + - p"
    unfolding add_pair_apply c p_def q_def by simp
  have r: "add_pair (Some (- 1)) gi gj v A (i, j) = A (i, j) + p + - q"
    unfolding add_pair_apply p_def q_def by simp
  show "add_pair (Some (- 1)) gi gj v A (j, i) = - add_pair (Some (- 1)) gi gj v A (i, j)"
    using e l r by linarith
qed

lemma symmetric_asm_block: "symmetric A \<Longrightarrow> symmetric (asm_block (Some 1) fn r rows cols A)"
  unfolding asm_block_def
proof (rule fold_invariant[where P = symmetric])
  fix x :: "int \<times> 'a" and B :: matrix
  assume B: "symmetric B"
  obtain gi fv where x: "x = (gi, fv)" by (cases x)
  have "symmetric (fold (\<lambda>(gj, fu). add_pair (Some 1) gi gj (fn fu fv r r)) cols B)"
    by (rule fold_invariant[where P = symmetric, OF B]) (auto intro: symmetric_add_pair)
  then show "symmetric ((case x of (gi, fv) \<Rightarrow>
      fold (\<lambda>(gj, fu). add_pair (Some 1) gi gj (fn fu fv r r)) cols) B)"
    by (simp add: x)
qed

lemma skew_asm_block: "skew A \<Longrightarrow> skew (asm_block (Some (- 1)) fn r rows cols A)"
  unfolding asm_block_def
proof (rule fold_invariant[where P = skew])
  fix x :: "int \<times> 'a" and B :: matrix
  assume B: "skew B"
  obtain gi fv where x: "x = (gi, fv)" by (cases x)
  have "skew (fold (\<lambda>(gj, fu). add_pair (Some (- 1)) gi gj (fn fu fv r r)) cols B)"
    by (rule fold_invariant[where P = skew, OF B]) (auto intro: skew_add_pair)
  then show "skew ((case x of (gi, fv) \<Rightarrow>
      fold (\<lambda>(gj, fu). add_pair (Some (- 1)) gi gj (fn fu fv r r)) cols) B)"
    by (simp add: x)
qed

lemma symmetric_asm_tri: "symmetric A \<Longrightarrow> symmetric (asm_tri fn r shapes A)"
proof (induction fn r shapes A rule: asm_tri.induct)
  case (1 fn r A)
  then show ?case by simp
next
  case (2 fn r g f later A)
  have "symmetric (add_entry g g (fn f f r r) A)"
    by (rule symmetric_add_diag) (rule "2.prems")
  then have "symmetric (fold (\<lambda>(g', f'). add_pair (Some 1) g' g (fn f f' r r)) later
          (add_entry g g (fn f f r r) A))"
    by (rule fold_invariant[where P = symmetric]) (auto intro: symmetric_add_pair)
  then show ?case using "2.IH" by simp
qed

lemma symmetric_asm_term:
  "bf_sym t = SYM \<Longrightarrow> symmetric A \<Longrightarrow> symmetric (asm_term el t A)"
  by (simp add: asm_term_def Let_def symmetric_asm_tri symmetric_asm_block)

lemma skew_asm_term:
  "bf_sym t = ANTISYM \<Longrightarrow> skew A \<Longrightarrow> skew (asm_term el t A)"
  by (simp add: asm_term_def Let_def skew_asm_block)

lemma symmetric_zero: "symmetric (\<lambda>ij. 0)"
  unfolding symmetric_def by simp

lemma skew_zero: "skew (\<lambda>ij. 0)"
  unfolding skew_def by simp

lemma symmetric_term_matrix:
  assumes "bf_sym t = SYM"
  shows "symmetric (term_matrix t els)"
  unfolding term_matrix_def
proof (rule fold_invariant[where P = symmetric])
  show "symmetric (\<lambda>ij. 0)" by (rule symmetric_zero)
next
  fix el :: "('a, 'b) element" and A :: matrix
  assume "symmetric A"
  then show "symmetric (asm_term el t A)" by (rule symmetric_asm_term[OF assms])
qed

lemma skew_term_matrix:
  assumes "bf_sym t = ANTISYM"
  shows "skew (term_matrix t els)"
  unfolding term_matrix_def
proof (rule fold_invariant[where P = skew])
  show "skew (\<lambda>ij. 0)" by (rule skew_zero)
next
  fix el :: "('a, 'b) element" and A :: matrix
  assume "skew A"
  then show "skew (asm_term el t A)" by (rule skew_asm_term[OF assms])
qed

lemma shiftedI: "(\<And>A ij. f A ij = A ij + f (\<lambda>ij. 0) ij) \<Longrightarrow> shifted f"
  unfolding shifted_def by blast

lemma shiftedD: "shifted f \<Longrightarrow> f A ij = A ij + f (\<lambda>ij. 0) ij"
  unfolding shifted_def by blast

lemma shifted_id: "shifted (\<lambda>A. A)"
  by (rule shiftedI) simp

lemma shifted_comp:
  assumes "shifted f" and "shifted g"
  shows "shifted (\<lambda>A. g (f A))"
proof (rule shiftedI)
  fix A ij
  have "g (f A) ij = f A ij + g (\<lambda>ij. 0) ij" by (rule shiftedD[OF assms(2)])
  moreover have "g (f (\<lambda>ij. 0)) ij = f (\<lambda>ij. 0) ij + g (\<lambda>ij. 0) ij" by (rule shiftedD[OF assms(2)])
  moreover have "f A ij = A ij + f (\<lambda>ij. 0) ij" by (rule shiftedD[OF assms(1)])
  ultimately show "g (f A) ij = A ij + g (f (\<lambda>ij. 0)) ij" by linarith
qed

lemma shifted_fold:
  assumes "\<And>x. x \<in> set xs \<Longrightarrow> shifted (f x)"
  shows "shifted (fold f xs)"
  using assms
proof (induction xs)
  case Nil
  have "fold f [] = (\<lambda>A. A)" by (rule ext) simp
  then show ?case using shifted_id by simp
next
  case (Cons x xs)
  have "shifted (f x)" "shifted (fold f xs)" using Cons by auto
  then have "shifted (\<lambda>A. fold f xs (f x A))" by (rule shifted_comp)
  moreover have "fold f (x # xs) = (\<lambda>A. fold f xs (f x A))" by (rule ext) simp
  ultimately show ?case by simp
qed

lemma shifted_add_entry: "shifted (add_entry i j v)"
proof (rule shiftedI)
  fix A :: matrix and ij :: "int \<times> int"
  obtain a b where ij: "ij = (a, b)" by (cases ij)
  show "add_entry i j v A ij = A ij + add_entry i j v (\<lambda>ij. 0) ij"
    unfolding ij add_entry_apply by simp
qed

lemma shifted_add_pair: "shifted (add_pair m i j v)"
proof (cases m)
  case None
  then have "add_pair m i j v = add_entry i j v" by (intro ext) (simp add: add_pair_def)
  then show ?thesis using shifted_add_entry[of i j v] by simp
next
  case (Some c)
  have "shifted (\<lambda>A. add_entry j i (c * v) (add_entry i j v A))"
    by (rule shifted_comp) (rule shifted_add_entry)+
  moreover have "add_pair m i j v = (\<lambda>A. add_entry j i (c * v) (add_entry i j v A))"
    using Some by (intro ext) (simp add: add_pair_def)
  ultimately show ?thesis by simp
qed

lemma shifted_asm_block: "shifted (asm_block m fn r rows cols)"
proof -
  have "shifted (fold (\<lambda>(gi, fv). fold (\<lambda>(gj, fu). add_pair m gi gj (fn fu fv r r)) cols) rows)"
  proof (rule shifted_fold)
    fix x :: "int \<times> 'a"
    obtain gi fv where x: "x = (gi, fv)" by (cases x)
    have "shifted (fold (\<lambda>(gj, fu). add_pair m gi gj (fn fu fv r r)) cols)"
    proof (rule shifted_fold)
      fix y :: "int \<times> 'a"
      obtain gj fu where y: "y = (gj, fu)" by (cases y)
      show "shifted (case y of (gj, fu) \<Rightarrow> add_pair m gi gj (fn fu fv r r))"
        unfolding y prod.case by (rule shifted_add_pair)
    qed
    then show "shifted (case x of (gi, fv) \<Rightarrow> fold (\<lambda>(gj, fu). add_pair m gi gj (fn fu fv r r)) cols)"
      unfolding x prod.case .
  qed
  moreover have "asm_block m fn r rows cols
      = fold (\<lambda>(gi, fv). fold (\<lambda>(gj, fu). add_pair m gi gj (fn fu fv r r)) cols) rows"
    by (intro ext) (simp add: asm_block_def)
  ultimately show ?thesis by simp
qed

lemma shifted_asm_tri: "shifted (asm_tri fn r shapes)"
proof (induction shapes)
  case Nil
  have "asm_tri fn r [] = (\<lambda>A. A)" by (rule ext) simp
  then show ?case using shifted_id by simp
next
  case (Cons x later)
  obtain g f where x: "x = (g, f)" by (cases x)
  have 1: "shifted (fold (\<lambda>(g', f'). add_pair (Some 1) g' g (fn f f' r r)) later)"
  proof (rule shifted_fold)
    fix y :: "int \<times> 'a"
    obtain g' f' where y: "y = (g', f')" by (cases y)
    show "shifted (case y of (g', f') \<Rightarrow> add_pair (Some 1) g' g (fn f f' r r))"
      unfolding y prod.case by (rule shifted_add_pair)
  qed
  have 2: "shifted (\<lambda>A. fold (\<lambda>(g', f'). add_pair (Some 1) g' g (fn f f' r r)) later
             (add_entry g g (fn f f r r) A))"
    by (rule shifted_comp[OF shifted_add_entry 1])
  have 3: "shifted (\<lambda>A. asm_tri fn r later
          (fold (\<lambda>(g', f'). add_pair (Some 1) g' g (fn f f' r r)) later
             (add_entry g g (fn f f r r) A)))"
    by (rule shifted_comp[OF 2 Cons.IH])
  have "asm_tri fn r (x # later) = (\<lambda>A. asm_tri fn r later
          (fold (\<lambda>(g', f'). add_pair (Some 1) g' g (fn f f' r r)) later
             (add_entry g g (fn f f r r) A)))"
    unfolding x by (rule ext) simp
  then show ?case using 3 by simp
qed

lemma shifted_asm_term: "shifted (asm_term el t)"
proof -
  let ?rows = "el_shapes el (bf_i t)" and ?cols = "el_shapes el (bf_j t)" and ?r = "el_refmap el"
  have "asm_term el t = asm_block None (bf_fn t) ?r ?rows ?cols
      \<or> asm_term el t = asm_block (Some 1) (bf_fn t) ?r ?rows ?cols
      \<or> asm_term el t = asm_block (Some (- 1)) (bf_fn t) ?r ?rows ?cols
      \<or> asm_term el t = asm_tri (bf_fn t) ?r ?rows"
    by (cases "bf_sym t") (auto simp: asm_term_def Let_def fun_eq_iff)
  then show ?thesis using shifted_asm_block shifted_asm_tri by metis
qed

lemma fold_shifted_sum:
  assumes "\<And>x. x \<in> set xs \<Longrightarrow> shifted (f x)"
  shows "fold f xs A ij = A ij + sum_list (map (\<lambda>x. f x (\<lambda>ij. 0) ij) xs)"
  using assms
proof (induction xs arbitrary: A)
  case Nil
  then show ?case by simp
next
  case (Cons x xs)
  have "fold f xs (f x A) ij = f x A ij + sum_list (map (\<lambda>x. f x (\<lambda>ij. 0) ij) xs)"
    by (rule Cons.IH) (use Cons.prems in auto)
  moreover have "f x A ij = A ij + f x (\<lambda>ij. 0) ij"
    by (rule shiftedD) (use Cons.prems in auto)
  ultimately show ?case by simp
qed

lemma sum_list_swap:
  "sum_list (map (\<lambda>x. sum_list (map (\<lambda>y. g x y) ys)) xs)
     = (sum_list (map (\<lambda>y. sum_list (map (\<lambda>x. g x y) xs)) ys) :: real)"
proof (induction xs)
  case Nil
  then show ?case by simp
next
  case (Cons x xs)
  then show ?case by (simp add: sum_list_addf)
qed

lemma assemble_matrix_sum:
  "assemble_matrix ts els ij = sum_list (map (\<lambda>t. term_matrix t els ij) ts)"
proof -
  have inner: "\<And>el. fold (asm_term el) ts (\<lambda>ij. 0) ij
      = sum_list (map (\<lambda>t. asm_term el t (\<lambda>ij. 0) ij) ts)"
    using fold_shifted_sum[of ts "asm_term _" "\<lambda>ij. 0" ij, OF shifted_asm_term] by simp
  have el: "\<And>el. shifted (fold (asm_term el) ts)"
    by (rule shifted_fold) (rule shifted_asm_term)
  have "assemble_matrix ts els ij
      = sum_list (map (\<lambda>el. fold (asm_term el) ts (\<lambda>ij. 0) ij) els)"
    unfolding assemble_matrix_def
    using fold_shifted_sum[of els "\<lambda>el. fold (asm_term el) ts" "\<lambda>ij. 0" ij, OF el] by simp
  also have "\<dots> = sum_list (map (\<lambda>el. sum_list (map (\<lambda>t. asm_term el t (\<lambda>ij. 0) ij) ts)) els)"
    unfolding inner ..
  also have "\<dots> = sum_list (map (\<lambda>t. sum_list (map (\<lambda>el. asm_term el t (\<lambda>ij. 0) ij) els)) ts)"
    by (rule sum_list_swap)
  also have "\<dots> = sum_list (map (\<lambda>t. term_matrix t els ij) ts)"
  proof -
    have "\<And>t. term_matrix t els ij = sum_list (map (\<lambda>el. asm_term el t (\<lambda>ij. 0) ij) els)"
      unfolding term_matrix_def
      using fold_shifted_sum[of els "\<lambda>el. asm_term el _" "\<lambda>ij. 0" ij, OF shifted_asm_term] by simp
    then show ?thesis by simp
  qed
  finally show ?thesis .
qed

lemma main_weak_form_biforms:
  "biforms (main_weak_form p I xp yp) =
     [\<lparr>bf_i = 0, bf_j = 0, bf_fn = bilinear_form_sym_0_0_1_1 p I, bf_sym = SYM\<rparr>,
      \<lparr>bf_i = 0, bf_j = 0, bf_fn = bilinear_form_unsym_0_0_1_1 I xp yp, bf_sym = UNSYM\<rparr>,
      \<lparr>bf_i = 1, bf_j = 1, bf_fn = bilinear_form_sym_0_0_1_1 p I, bf_sym = SYM\<rparr>,
      \<lparr>bf_i = 1, bf_j = 1, bf_fn = bilinear_form_unsym_0_0_1_1 I xp yp, bf_sym = UNSYM\<rparr>,
      \<lparr>bf_i = 0, bf_j = 2, bf_fn = bilinear_form_unsym_0_2 I, bf_sym = ANTISYM\<rparr>,
      \<lparr>bf_i = 1, bf_j = 2, bf_fn = bilinear_form_unsym_1_2 I, bf_sym = ANTISYM\<rparr>]"
  by (simp add: main_weak_form_def add_biform_def add_liform_def WeakForm_def)

lemma example_term_entries:
  "term_matrix \<lparr>bf_i = 0, bf_j = 2, bf_fn = bilinear_form_unsym_0_2 example_integrals, bf_sym = ANTISYM\<rparr>
     [example_element] (1, 4) = - 2"
  "term_matrix \<lparr>bf_i = 0, bf_j = 0, bf_fn = bilinear_form_sym_0_0_1_1 source_params example_integrals, bf_sym = SYM\<rparr>
     [example_element] (1, 0) = 2 * (3 / 1000 + 2)"
  by (simp_all add: term_matrix_def asm_term_def asm_block_def example_element_def
      example_integrals_def bilinear_form_unsym_0_2_def bilinear_form_sym_0_0_1_1_def
      source_params_def add_pair_apply add_entry_apply)

text \<open>
  Claim C6. The assembled matrix is the sum of the contributions of its terms. The
  contribution of every term tagged symmetric has equal entries at \<open>(i, j)\<close> and
  \<open>(j, i)\<close>, and the contribution of every term tagged antisymmetric has at \<open>(j, i)\<close> the
  exact negation of its entry at \<open>(i, j)\<close>: the mirrored block is the negated transpose
  of the computed one. In main.cpp the symmetric terms are those on the blocks (0,0) and
  (1,1), the antisymmetric ones the velocity-pressure couplings (0,2) and (1,2).
\<close>

theorem tagged_terms_are_mirrored_exactly:
  "(\<forall>ij. assemble_matrix ts els ij = sum_list (map (\<lambda>t. term_matrix t els ij) ts))
   \<and> (\<forall>t\<in>set ts. bf_sym t = SYM \<longrightarrow>
         (\<forall>i j. term_matrix t els (i, j) = term_matrix t els (j, i)))
   \<and> (\<forall>t\<in>set ts. bf_sym t = ANTISYM \<longrightarrow>
         (\<forall>i j. term_matrix t els (j, i) = - term_matrix t els (i, j)))
   \<and> map (\<lambda>t. (bf_i t, bf_j t, bf_sym t)) (biforms (main_weak_form p I xp yp))
       = [(0, 0, SYM), (0, 0, UNSYM), (1, 1, SYM), (1, 1, UNSYM), (0, 2, ANTISYM), (1, 2, ANTISYM)]"
proof (intro conjI)
  show "\<forall>ij. assemble_matrix ts els ij = sum_list (map (\<lambda>t. term_matrix t els ij) ts)"
    using assemble_matrix_sum by blast
  show "\<forall>t\<in>set ts. bf_sym t = SYM \<longrightarrow>
         (\<forall>i j. term_matrix t els (i, j) = term_matrix t els (j, i))"
    using symmetric_term_matrix unfolding symmetric_def by blast
  show "\<forall>t\<in>set ts. bf_sym t = ANTISYM \<longrightarrow>
         (\<forall>i j. term_matrix t els (j, i) = - term_matrix t els (i, j))"
    using skew_term_matrix unfolding skew_def by blast
  show "map (\<lambda>t. (bf_i t, bf_j t, bf_sym t)) (biforms (main_weak_form p I xp yp))
       = [(0, 0, SYM), (0, 0, UNSYM), (1, 1, SYM), (1, 1, UNSYM), (0, 2, ANTISYM), (1, 2, ANTISYM)]"
    by (simp add: main_weak_form_biforms)
qed

text \<open>C6 on one element, with the terms registered by main.cpp.\<close>

theorem tagged_terms_are_mirrored_exactly_witness:
  "\<lparr>bf_i = 0, bf_j = 2, bf_fn = bilinear_form_unsym_0_2 example_integrals, bf_sym = ANTISYM\<rparr>
     \<in> set (biforms (main_weak_form source_params example_integrals 0 0))
   \<and> term_matrix \<lparr>bf_i = 0, bf_j = 2, bf_fn = bilinear_form_unsym_0_2 example_integrals, bf_sym = ANTISYM\<rparr>
        [example_element] (1, 4) = - 2
   \<and> term_matrix \<lparr>bf_i = 0, bf_j = 2, bf_fn = bilinear_form_unsym_0_2 example_integrals, bf_sym = ANTISYM\<rparr>
        [example_element] (4, 1) = 2
   \<and> \<lparr>bf_i = 0, bf_j = 0, bf_fn = bilinear_form_sym_0_0_1_1 source_params example_integrals, bf_sym = SYM\<rparr>
     \<in> set (biforms (main_weak_form source_params example_integrals 0 0))
   \<and> term_matrix \<lparr>bf_i = 0, bf_j = 0, bf_fn = bilinear_form_sym_0_0_1_1 source_params example_integrals, bf_sym = SYM\<rparr>
        [example_element] (1, 0) = 2 * (3 / 1000 + 2)
   \<and> term_matrix \<lparr>bf_i = 0, bf_j = 0, bf_fn = bilinear_form_sym_0_0_1_1 source_params example_integrals, bf_sym = SYM\<rparr>
        [example_element] (0, 1) = 2 * (3 / 1000 + 2)"
proof -
  let ?ts = "biforms (main_weak_form source_params example_integrals (0::real) 0)"
  let ?a = "\<lparr>bf_i = 0, bf_j = 2, bf_fn = bilinear_form_unsym_0_2 example_integrals, bf_sym = ANTISYM\<rparr>"
  let ?s = "\<lparr>bf_i = 0, bf_j = 0, bf_fn = bilinear_form_sym_0_0_1_1 source_params example_integrals, bf_sym = SYM\<rparr>"
  note th = tagged_terms_are_mirrored_exactly[of ?ts "[example_element]"]
  have a: "?a \<in> set ?ts" and s: "?s \<in> set ?ts" by (simp_all add: main_weak_form_biforms)
  have "term_matrix ?a [example_element] (4, 1) = - term_matrix ?a [example_element] (1, 4)"
    using th a by (metis biform.select_convs(4))
  moreover have "term_matrix ?s [example_element] (0, 1) = term_matrix ?s [example_element] (1, 0)"
    using th s by (metis biform.select_convs(4))
  ultimately show ?thesis using a s example_term_entries by simp
qed

section \<open>The state of rest\<close>

lemma main_weak_form_liforms:
  "liforms (main_weak_form p I xp yp) =
     [\<lparr>lf_i = 0, lf_fn = linear_form_0 p I xp\<rparr>, \<lparr>lf_i = 1, lf_fn = linear_form_1 p I yp\<rparr>]"
  by (simp add: main_weak_form_def add_biform_def add_liform_def WeakForm_def)

lemma asm_liform_zero:
  assumes "\<And>fv r. lf_fn l fv r = 0" and "b = (\<lambda>i. 0)"
  shows "asm_liform el l b = (\<lambda>i. 0)"
  unfolding asm_liform_def
proof (rule fold_invariant[where P = "\<lambda>b. b = (\<lambda>i. 0)"])
  show "b = (\<lambda>i. 0)" by (rule assms(2))
next
  fix x :: "int \<times> 'a" and c :: vector
  assume c: "c = (\<lambda>i. 0)"
  obtain gi fv where x: "x = (gi, fv)" by (cases x)
  show "(case x of (gi, fv) \<Rightarrow> add_rhs gi (lf_fn l fv (el_refmap el))) c = (\<lambda>i. 0)"
    unfolding x prod.case c by (simp add: add_rhs_def assms(1) fun_eq_iff)
qed

lemma assemble_rhs_zero:
  assumes "\<And>l fv r. l \<in> set ls \<Longrightarrow> lf_fn l fv r = 0"
  shows "assemble_rhs ls els = (\<lambda>i. 0)"
  unfolding assemble_rhs_def
proof (rule fold_invariant[where P = "\<lambda>b. b = (\<lambda>i. 0)"])
  show "(\<lambda>i. 0 :: real) = (\<lambda>i. 0)" by simp
next
  fix el :: "('a, 'b) element" and b :: vector
  assume b: "b = (\<lambda>i. 0)"
  show "fold (asm_liform el) ls b = (\<lambda>i. 0)"
  proof (rule fold_invariant[where P = "\<lambda>b. b = (\<lambda>i. 0)"])
    show "b = (\<lambda>i. 0)" by (rule b)
  next
    fix l and c :: vector assume l: "l \<in> set ls" and c: "c = (\<lambda>i. 0)"
    show "asm_liform el l c = (\<lambda>i. 0)"
      by (rule asm_liform_zero[OF assms[OF l] c])
  qed
qed

lemma main_rhs_zero:
  assumes "\<And>v ru rv. int_u_v I z v ru rv = 0"
  shows "assemble_rhs (liforms (main_weak_form p I z z)) els = (\<lambda>i. 0)"
proof (rule assemble_rhs_zero)
  fix l fv r assume "l \<in> set (liforms (main_weak_form p I z z))"
  then show "lf_fn l fv r = 0"
    using assms by (auto simp: main_weak_form_liforms linear_form_0_def linear_form_1_def)
qed

lemma spec_assemble_zero_rhs:
  assumes "\<And>v ru rv. int_u_v (sv_integrals S) z v ru rv = 0"
    and "spec_assemble p S t sx sy sp z z = Some sys"
  shows "\<forall>b\<in>set (rhs sys). b = 0"
proof -
  have "rhs sys = map (\<lambda>i. 0) [0 .. sys_dimension [sx, sy, sp] - 1]"
    using assms(2) main_rhs_zero[of "sv_integrals S" z p, OF assms(1)]
    by (auto simp: spec_assemble_def Let_def split: if_splits prod.splits)
  then show ?thesis by auto
qed

lemma xvel_bc_value_zero: "VEL_INLET p = 0 \<Longrightarrow> xvel_bc_value p t m x y = 0"
  by (simp add: xvel_bc_value_def)

lemma assign_all_bc_values [simp]:
  "bc_values (xvel (assign_all L i s)) = bc_values (xvel s)"
  "bc_values (yvel (assign_all L i s)) = bc_values (yvel s)"
  "bc_values (press (assign_all L i s)) = bc_values (press s)"
  by (simp_all add: assign_all_def assign_dofs_def Let_def)

lemma step_Inr_full:
  assumes "step p L i s = Inr s'"
  shows "\<exists>sys X.
      assemble L (TIME s + TAU p) (xvel s') (yvel s') (press s') (xprev s) (yprev s) = Some sys
    \<and> returned_vector (spsolve L sys) = Some X
    \<and> xprev s' = set_fe_solution L XVel (xvel s') X
    \<and> yprev s' = set_fe_solution L YVel (yvel s') X
    \<and> bc_values (xvel s') = bc_values (xvel s)
    \<and> bc_values (yvel s') = bc_values (yvel s)
    \<and> bc_values (press s') = bc_values (press s)
    \<and> trace s' = trace s @ map (stamp i (TIME s + TAU p))
        (Advance # assign_calls L s @ [Assemble (xprev s) (yprev s), Solve sys,
           Decode XVel (xprev s'), Decode YVel (yprev s'),
           Decode Press (set_fe_solution L Press (press s') X)])"
  using assms
  by (auto simp: step_def Let_def assign_calls_def split: option.splits)

lemma spec_library_simps [simp]:
  "assemble (spec_library p S) = spec_assemble p S"
  "spsolve (spec_library p S) = sv_solve S"
  "set_fe_solution (spec_library p S) = sv_decode S"
  "set_zero (spec_library p S) = sv_zero S"
  "import_hermes2d (spec_library p S) = 0"
  "count_dofs (spec_library p S) = sv_count S"
  by (simp_all add: spec_library_def)

lemma at_rest_append:
  assumes "at_rest S tr"
    and "\<And>sys. Solve sys \<in> set cs \<Longrightarrow> \<forall>b\<in>set (rhs sys). b = 0"
    and "\<And>f u. Decode f u \<in> set cs \<Longrightarrow> u = sv_zero S"
  shows "at_rest S (tr @ map (stamp i t) cs)"
  using assms unfolding at_rest_def by auto

lemma resting_Inr:
  assumes int: "\<And>v ru rv. int_u_v (sv_integrals S) (sv_zero S) v ru rv = 0"
    and slv: "\<And>sys X. returned_vector (sv_solve S sys) = Some X \<Longrightarrow> \<forall>b\<in>set (rhs sys). b = 0
        \<Longrightarrow> \<forall>x\<in>set X. x = 0"
    and dec: "\<And>f sp X. \<forall>x\<in>set X. x = 0 \<Longrightarrow> \<forall>m x y. bc_values sp (bc_time sp) m x y = 0
        \<Longrightarrow> sv_decode S f sp X = sv_zero S"
    and r: "resting S s" and st: "step p (spec_library p S) i s = Inr s'"
  shows "resting S s'"
proof -
  let ?L = "spec_library p S" and ?z = "sv_zero S"
  from r have z: "xprev s = ?z" "yprev s = ?z"
    and b1: "\<And>t m x y. bc_values (xvel s) t m x y = 0"
    and b2: "\<And>t m x y. bc_values (yvel s) t m x y = 0"
    and b3: "\<And>t m x y. bc_values (press s) t m x y = 0"
    and ar: "at_rest S (trace s)"
    by (auto simp: resting_def)
  from step_Inr_full[OF st] obtain sys X where
    a: "spec_assemble p S (TIME s + TAU p) (xvel s') (yvel s') (press s') (xprev s) (yprev s) = Some sys"
    and v: "returned_vector (sv_solve S sys) = Some X"
    and x: "xprev s' = sv_decode S XVel (xvel s') X"
    and y: "yprev s' = sv_decode S YVel (yvel s') X"
    and b: "bc_values (xvel s') = bc_values (xvel s)" "bc_values (yvel s') = bc_values (yvel s)"
      "bc_values (press s') = bc_values (press s)"
    and tr: "trace s' = trace s @ map (stamp i (TIME s + TAU p))
        (Advance # assign_calls ?L s @ [Assemble (xprev s) (yprev s), Solve sys,
           Decode XVel (xprev s'), Decode YVel (yprev s'),
           Decode Press (sv_decode S Press (press s') X)])"
    by auto
  have rz: "\<forall>b\<in>set (rhs sys). b = 0"
    using spec_assemble_zero_rhs[OF int, of p "TIME s + TAU p" "xvel s'" "yvel s'" "press s'" sys] a z
    by simp
  have Xz: "\<forall>x\<in>set X. x = 0" by (rule slv[OF v rz])
  have dx: "xprev s' = ?z" unfolding x by (rule dec[OF Xz]) (simp add: b b1)
  have dy: "yprev s' = ?z" unfolding y by (rule dec[OF Xz]) (simp add: b b2)
  have dp: "sv_decode S Press (press s') X = ?z" by (rule dec[OF Xz]) (simp add: b b3)
  have "at_rest S (trace s')"
    unfolding tr by (rule at_rest_append[OF ar]) (use rz dx dy dp in auto)
  then show ?thesis using dx dy b b1 b2 b3 by (simp add: resting_def)
qed

lemma resting_Inl:
  assumes int: "\<And>v ru rv. int_u_v (sv_integrals S) (sv_zero S) v ru rv = 0"
    and r: "resting S s" and st: "step p (spec_library p S) i s = Inl (e, s')"
  shows "resting S s'"
proof -
  let ?L = "spec_library p S" and ?z = "sv_zero S"
  from r have z: "xprev s = ?z" "yprev s = ?z" and ar: "at_rest S (trace s)"
    by (auto simp: resting_def)
  from step_Inl_trace[OF st] obtain cs where
    tr: "trace s' = trace s @ map (stamp i (TIME s + TAU p))
        (Advance # assign_calls ?L s @ Assemble (xprev s) (yprev s) # cs)"
    and cs: "cs = [] \<or> (\<exists>sys. cs = [Solve sys] \<and>
       assemble ?L (TIME s + TAU p) (xvel s') (yvel s') (press s') (xprev s) (yprev s) = Some sys)"
    by blast
  have sz: "\<And>sys. Solve sys \<in> set cs \<Longrightarrow> \<forall>b\<in>set (rhs sys). b = 0"
  proof -
    fix sys assume "Solve sys \<in> set cs"
    then have "spec_assemble p S (TIME s + TAU p) (xvel s') (yvel s') (press s') ?z ?z = Some sys"
      using cs z by auto
    then show "\<forall>b\<in>set (rhs sys). b = 0" by (rule spec_assemble_zero_rhs[OF int])
  qed
  have "at_rest S (trace s')"
    unfolding tr by (rule at_rest_append[OF ar]) (use sz cs in auto)
  moreover have "xprev s' = xprev s" "yprev s' = yprev s" using step_Inl[OF st] by auto
  moreover have "bc_values (xvel s') = bc_values (xvel s)" "bc_values (yvel s') = bc_values (yvel s)"
      "bc_values (press s') = bc_values (press s)"
    using st by (auto simp: step_def Let_def split: option.splits)
  ultimately show ?thesis using r by (simp add: resting_def)
qed

lemma resting_main:
  assumes bc: "VEL_INLET p = 0"
    and int: "\<And>v ru rv. int_u_v (sv_integrals S) (sv_zero S) v ru rv = 0"
    and slv: "\<And>sys X. returned_vector (sv_solve S sys) = Some X \<Longrightarrow> \<forall>b\<in>set (rhs sys). b = 0
        \<Longrightarrow> \<forall>x\<in>set X. x = 0"
    and dec: "\<And>f sp X. \<forall>x\<in>set X. x = 0 \<Longrightarrow> \<forall>m x y. bc_values sp (bc_time sp) m x y = 0
        \<Longrightarrow> sv_decode S f sp X = sv_zero S"
  shows "resting S (final_state (main p (spec_library p S)))"
proof -
  let ?L = "spec_library p S"
  let ?s0 = "assign_all ?L 0 (initial_state p ?L)"
  have "at_rest S ([] @ map (stamp 0 0) (assign_calls ?L (initial_state p ?L)))"
    by (rule at_rest_append) (simp_all add: at_rest_def)
  then have a0: "at_rest S (trace ?s0)" by simp
  have b0: "\<forall>t m x y. bc_values (xvel (initial_state p ?L)) t m x y = 0"
    "\<forall>t m x y. bc_values (yvel (initial_state p ?L)) t m x y = 0"
    "\<forall>t m x y. bc_values (press (initial_state p ?L)) t m x y = 0"
    by (simp_all add: initial_state_def new_space_def xvel_bc_value_zero[OF bc])
  have init: "resting S ?s0"
    unfolding resting_def using a0 b0 by simp
  have "resting S (final_state (main_loop p ?L 1 (num_time_steps p) ?s0))"
  proof (rule main_loop_final_induct[where P = "\<lambda>j. resting S" and Q = "resting S"])
    show "resting S ?s0" by (rule init)
  next
    fix j t t' assume a: "resting S t" "step p ?L j t = Inr t'"
    show "resting S t'"
    proof (rule resting_Inr[OF _ _ _ a])
      show "\<And>v ru rv. int_u_v (sv_integrals S) (sv_zero S) v ru rv = 0" by (rule int)
      show "\<And>sys X. returned_vector (sv_solve S sys) = Some X \<Longrightarrow> \<forall>b\<in>set (rhs sys). b = 0
        \<Longrightarrow> \<forall>x\<in>set X. x = 0" by (rule slv)
      show "\<And>f sp X. \<forall>x\<in>set X. x = 0 \<Longrightarrow> \<forall>m x y. bc_values sp (bc_time sp) m x y = 0
        \<Longrightarrow> sv_decode S f sp X = sv_zero S" by (rule dec)
    qed
  next
    fix j t e t' assume a: "resting S t" "step p ?L j t = Inl (e, t')"
    show "resting S t'" by (rule resting_Inl[OF int a])
  next
    fix j t assume "resting S (t :: 'a state)" then show "resting S t" .
  qed
  then show ?thesis by (simp add: main_def)
qed

lemma trace_grows: "set (trace s) \<subseteq> set (trace (final_state (main_loop p L i n s)))"
proof (rule main_loop_final_induct[where P = "\<lambda>j t. set (trace s) \<subseteq> set (trace t)"
      and Q = "\<lambda>t. set (trace s) \<subseteq> set (trace t)"])
  show "set (trace s) \<subseteq> set (trace s)" by simp
next
  fix j t t' assume "set (trace s) \<subseteq> set (trace t)" "step p L j t = Inr t'"
  then show "set (trace s) \<subseteq> set (trace t')" using step_trace[of p L j t] by auto
next
  fix j t e t' assume "set (trace s) \<subseteq> set (trace t)" "step p L j t = Inl (e, t')"
  then show "set (trace s) \<subseteq> set (trace t')" using step_trace[of p L j t] by auto
next
  fix j t assume "set (trace s) \<subseteq> set (trace (t :: 'a state))"
  then show "set (trace s) \<subseteq> set (trace t)" .
qed

lemma example_services_contracts:
  "VEL_INLET rest_params = 0"
  "\<forall>v ru rv. int_u_v (sv_integrals example_services) (sv_zero example_services) v ru rv = 0"
  "\<forall>sys X. returned_vector (sv_solve example_services sys) = Some X \<and> (\<forall>b\<in>set (rhs sys). b = 0)
           \<longrightarrow> (\<forall>x\<in>set X. x = 0)"
  "\<forall>f sp X. (\<forall>x\<in>set X. x = 0) \<and> (\<forall>m x y. bc_values sp (bc_time sp) m x y = 0)
           \<longrightarrow> sv_decode example_services f sp X = sv_zero example_services"
proof -
  show "VEL_INLET rest_params = 0" by (simp add: rest_params_def)
  show "\<forall>v ru rv. int_u_v (sv_integrals example_services) (sv_zero example_services) v ru rv = 0"
    by (simp add: example_services_def example_integrals_def)
  show "\<forall>sys X. returned_vector (sv_solve example_services sys) = Some X \<and> (\<forall>b\<in>set (rhs sys). b = 0)
           \<longrightarrow> (\<forall>x\<in>set X. x = 0)"
    by (auto simp: example_services_def)
  have z: "\<And>X :: real list. \<forall>x\<in>set X. x = 0 \<Longrightarrow> sum_list X = 0"
  proof -
    fix X :: "real list" show "\<forall>x\<in>set X. x = 0 \<Longrightarrow> sum_list X = 0"
      by (induction X) auto
  qed
  show "\<forall>f sp X. (\<forall>x\<in>set X. x = 0) \<and> (\<forall>m x y. bc_values sp (bc_time sp) m x y = 0)
           \<longrightarrow> sv_decode example_services f sp X = sv_zero example_services"
  proof (intro allI impI)
    fix f :: field and sp :: space and X :: "real list"
    assume "(\<forall>x\<in>set X. x = 0) \<and> (\<forall>m x y. bc_values sp (bc_time sp) m x y = 0)"
    then have "\<forall>x\<in>set (take (nat (num_dofs sp)) (drop (nat (first_dof sp)) X)). x = 0"
      by (meson in_set_dropD in_set_takeD)
    then show "sv_decode example_services f sp X = sv_zero example_services"
      using z by (simp add: example_services_def)
  qed
qed

lemma spec_assemble_rest_rhs:
  assumes "\<And>v ru rv. int_u_v (sv_integrals S) z v ru rv = 0"
    and "spec_assemble p S t sx sy sp z z = Some sys"
  shows "rhs sys = map (\<lambda>i. 0) [0 .. sys_dimension [sx, sy, sp] - 1]"
  using assms(2) main_rhs_zero[of "sv_integrals S" z p, OF assms(1)]
  by (auto simp: spec_assemble_def Let_def split: if_splits prod.splits)

lemma example_first_step:
  "\<exists>s1. step rest_params (spec_library rest_params example_services) 1
     (assign_all (spec_library rest_params example_services) 0
        (initial_state rest_params (spec_library rest_params example_services))) = Inr s1"
proof -
  let ?L = "spec_library rest_params example_services"
  let ?init = "assign_all ?L 0 (initial_state rest_params ?L)"
  let ?after = "assign_all ?L 1 (?init\<lparr>TIME := TIME ?init + TAU rest_params\<rparr>)"
  have n: "0 < num_dofs (xvel ?after)" "0 < num_dofs (yvel ?after)" "0 < num_dofs (press ?after)"
    unfolding assign_all_spaces by (simp_all add: example_services_def)
  obtain sys where a: "spec_assemble rest_params example_services (TIME ?init + TAU rest_params)
       (xvel ?after) (yvel ?after) (press ?after) (xprev ?init) (yprev ?init) = Some sys"
    using spec_assemble_returns[OF n, where p = rest_params and S = example_services
        and t = "TIME ?init + TAU rest_params" and xp = "xprev ?init" and yp = "yprev ?init"]
    by blast
  have a': "assemble ?L (TIME ?init + TAU rest_params) (xvel ?after) (yvel ?after) (press ?after)
       (xprev ?init) (yprev ?init) = Some sys"
    unfolding spec_library_simps by (rule a)
  have r: "returned_vector (spsolve ?L sys) = Some (rhs sys)"
    by (simp add: example_services_def)
  from step_returned[OF a' r] show ?thesis by blast
qed

text \<open>
  Claim C7. Let the previous-step velocity start as the zero field (a field whose integral
  against every test function is 0) and let every essential boundary value be zero (the
  inlet velocity is 0; the other essential values are 0 anyway). Let the solve return the
  zero vector for a zero right-hand side, and the decoding of the zero vector over a space
  with zero essential values be the zero field. Then in every run the right-hand side
  handed to the solve is exactly zero, at step 1 and at every later step, every decoded
  field is the zero field, and the previous-step velocity stays the zero field.
\<close>

theorem zero_rest_state_is_a_fixed_point:
  assumes "VEL_INLET p = 0"
    and "\<forall>v ru rv. int_u_v (sv_integrals S) (sv_zero S) v ru rv = 0"
    and "\<forall>sys X. returned_vector (sv_solve S sys) = Some X \<and> (\<forall>b\<in>set (rhs sys). b = 0)
           \<longrightarrow> (\<forall>x\<in>set X. x = 0)"
    and "\<forall>f sp X. (\<forall>x\<in>set X. x = 0) \<and> (\<forall>m x y. bc_values sp (bc_time sp) m x y = 0)
           \<longrightarrow> sv_decode S f sp X = sv_zero S"
  shows "(\<forall>t m x y. xvel_bc_value p t m x y = 0)
    \<and> (\<forall>e\<in>set (final_trace p (spec_library p S)). \<forall>sys. ev_call e = Solve sys \<longrightarrow>
          (\<forall>b\<in>set (rhs sys). b = 0))
    \<and> (\<forall>e\<in>set (final_trace p (spec_library p S)). \<forall>f u. ev_call e = Decode f u \<longrightarrow>
          u = sv_zero S)
    \<and> xprev (final_state (main p (spec_library p S))) = sv_zero S
    \<and> yprev (final_state (main p (spec_library p S))) = sv_zero S"
proof -
  have "resting S (final_state (main p (spec_library p S)))"
  proof (rule resting_main[OF assms(1)])
    show "\<And>v ru rv. int_u_v (sv_integrals S) (sv_zero S) v ru rv = 0" using assms(2) by blast
    show "\<And>sys X. returned_vector (sv_solve S sys) = Some X \<Longrightarrow> \<forall>b\<in>set (rhs sys). b = 0
        \<Longrightarrow> \<forall>x\<in>set X. x = 0" using assms(3) by blast
    show "\<And>f sp X. \<forall>x\<in>set X. x = 0 \<Longrightarrow> \<forall>m x y. bc_values sp (bc_time sp) m x y = 0
        \<Longrightarrow> sv_decode S f sp X = sv_zero S" using assms(4) by blast
  qed
  then show ?thesis
    using xvel_bc_value_zero[OF assms(1)] unfolding resting_def at_rest_def by blast
qed

text \<open>C7 on the example services, with the inlet velocity set to 0.\<close>

theorem zero_rest_state_is_a_fixed_point_witness:
  "VEL_INLET rest_params = 0
   \<and> (\<forall>v ru rv. int_u_v (sv_integrals example_services) (sv_zero example_services) v ru rv = 0)
   \<and> xvel_bc_value rest_params (1 / 2) marker_left 0 5 = 0
   \<and> (\<exists>e sys. e \<in> set (final_trace rest_params (spec_library rest_params example_services))
         \<and> ev_call e = Solve sys \<and> rhs sys = [0, 0, 0, 0, 0])
   \<and> (\<exists>e. e \<in> set (final_trace rest_params (spec_library rest_params example_services))
         \<and> ev_call e = Decode XVel 0)
   \<and> xprev (final_state (main rest_params (spec_library rest_params example_services))) = 0"
proof -
  let ?L = "spec_library rest_params example_services"
  let ?s0 = "assign_all ?L 0 (initial_state rest_params ?L)"
  let ?tr = "final_trace rest_params ?L"
  note th = zero_rest_state_is_a_fixed_point[OF example_services_contracts]
  have z: "sv_zero example_services = 0" by (simp add: example_services_def)
  have nts: "num_time_steps rest_params = 2"
    by (simp add: num_time_steps_def rest_params_def two_step_params_def source_params_def
        double_to_int_def b64_values)
  obtain s1 where st: "step rest_params ?L 1 ?s0 = Inr s1" using example_first_step by blast
  have m: "main rest_params ?L = main_loop rest_params ?L 2 2 s1"
    unfolding main_def nts by (subst main_loop.simps) (simp add: st)
  have sub: "set (trace s1) \<subseteq> set ?tr" unfolding m by (rule trace_grows)
  from step_Inr_full[OF st] obtain sys X where
    a: "spec_assemble rest_params example_services (TIME ?s0 + TAU rest_params)
          (xvel s1) (yvel s1) (press s1) (xprev ?s0) (yprev ?s0) = Some sys"
    and tr: "trace s1 = trace ?s0 @ map (stamp 1 (TIME ?s0 + TAU rest_params))
        (Advance # assign_calls ?L ?s0 @ [Assemble (xprev ?s0) (yprev ?s0), Solve sys,
           Decode XVel (xprev s1), Decode YVel (yprev s1),
           Decode Press (set_fe_solution ?L Press (press s1) X)])"
    by auto
  let ?e = "stamp 1 (TIME ?s0 + TAU rest_params) (Solve sys) :: real event"
  let ?d = "stamp 1 (TIME ?s0 + TAU rest_params) (Decode XVel (xprev s1)) :: real event"
  have e: "?e \<in> set ?tr" and d: "?d \<in> set ?tr" using sub unfolding tr by auto
  have rz: "\<forall>b\<in>set (rhs sys). b = 0"
  proof -
    have "\<forall>e\<in>set ?tr. \<forall>sys. ev_call e = Solve sys \<longrightarrow> (\<forall>b\<in>set (rhs sys). b = 0)"
      using th by blast
    then show ?thesis using e by simp
  qed
  have dz: "xprev s1 = 0"
  proof -
    have "\<forall>e\<in>set ?tr. \<forall>f u. ev_call e = Decode f u \<longrightarrow> u = sv_zero example_services"
      using th by blast
    then have "xprev s1 = sv_zero example_services" using d by simp
    then show ?thesis using z by simp
  qed
  have dim: "sys_dimension [xvel s1, yvel s1, press s1] = 5"
    unfolding step_spaces[OF st] sys_dimension_def
    by (simp add: assign_all_spaces example_services_def)
  have zz: "xprev ?s0 = 0" "yprev ?s0 = 0" by (simp_all add: example_services_def)
  have "rhs sys = map (\<lambda>i. 0) [0 .. sys_dimension [xvel s1, yvel s1, press s1] - 1]"
    by (rule spec_assemble_rest_rhs[where z = 0 and S = example_services])
       (use a zz in \<open>simp_all add: example_services_def example_integrals_def\<close>)
  then have rhs: "rhs sys = [0, 0, 0, 0, 0]"
    unfolding dim by (simp add: upto_rec1)
  have x: "xprev (final_state (main rest_params ?L)) = 0" using th z by simp
  have bc: "xvel_bc_value rest_params (1 / 2) marker_left 0 5 = 0" using th by blast
  show ?thesis
    using example_services_contracts(1,2) bc x e d rhs dz
    by (intro conjI exI[of _ ?e] exI[of _ ?d] exI[of _ sys]) simp_all
qed

section \<open>The convective term and its anchor\<close>

lemma unsym_terms:
  "filter (\<lambda>t. bf_sym t = UNSYM) (biforms (main_weak_form p I xp yp)) =
     [\<lparr>bf_i = 0, bf_j = 0, bf_fn = int_w_nabla_u_v I xp yp, bf_sym = UNSYM\<rparr>,
      \<lparr>bf_i = 1, bf_j = 1, bf_fn = int_w_nabla_u_v I xp yp, bf_sym = UNSYM\<rparr>]"
proof -
  have "bilinear_form_unsym_0_0_1_1 I xp yp = int_w_nabla_u_v I xp yp"
    by (intro ext) (simp add: bilinear_form_unsym_0_0_1_1_def)
  then show ?thesis by (simp add: main_weak_form_biforms)
qed

lemma other_terms:
  "filter (\<lambda>t. bf_sym t \<noteq> UNSYM) (biforms (main_weak_form p I xp yp)) =
     [\<lparr>bf_i = 0, bf_j = 0, bf_fn = bilinear_form_sym_0_0_1_1 p I, bf_sym = SYM\<rparr>,
      \<lparr>bf_i = 1, bf_j = 1, bf_fn = bilinear_form_sym_0_0_1_1 p I, bf_sym = SYM\<rparr>,
      \<lparr>bf_i = 0, bf_j = 2, bf_fn = bilinear_form_unsym_0_2 I, bf_sym = ANTISYM\<rparr>,
      \<lparr>bf_i = 1, bf_j = 2, bf_fn = bilinear_form_unsym_1_2 I, bf_sym = ANTISYM\<rparr>]"
  by (simp add: main_weak_form_biforms)

lemma matrix_split:
  "assemble_matrix (biforms (main_weak_form p I xp yp)) els ij =
     assemble_matrix (filter (\<lambda>t. bf_sym t \<noteq> UNSYM) (biforms (main_weak_form p I xq yq))) els ij
     + term_matrix \<lparr>bf_i = 0, bf_j = 0, bf_fn = int_w_nabla_u_v I xp yp, bf_sym = UNSYM\<rparr> els ij
     + term_matrix \<lparr>bf_i = 1, bf_j = 1, bf_fn = int_w_nabla_u_v I xp yp, bf_sym = UNSYM\<rparr> els ij"
proof -
  have k: "bilinear_form_unsym_0_0_1_1 I xp yp = int_w_nabla_u_v I xp yp"
    by (intro ext) (simp add: bilinear_form_unsym_0_0_1_1_def)
  show ?thesis
    unfolding other_terms assemble_matrix_sum main_weak_form_biforms k by simp
qed

lemma spec_assemble_matrix:
  assumes "spec_assemble p S t sx sy sp xp yp = Some sys"
  shows "(Ap sys, Ai sys, Ax sys) =
     sv_store S (assemble_matrix (biforms (main_weak_form p (sv_integrals S) xp yp))
       (sv_elements S sx sy sp)) (dim sys)"
    and "dim sys = sys_dimension [sx, sy, sp]"
    and "rhs sys = map (assemble_rhs (liforms (main_weak_form p (sv_integrals S) xp yp))
       (sv_elements S sx sy sp)) [0 .. dim sys - 1]"
  using assms by (auto simp: spec_assemble_def Let_def split: if_splits prod.splits)

lemma spec_assemble_services:
  "spec_assemble p (S\<lparr>sv_solve := slv, sv_decode := dec\<rparr>) = spec_assemble p S"
  by (intro ext) (simp add: spec_assemble_def)

lemma driven_matrix:
  "snd (snd (dense_store (assemble_matrix
       (biforms (main_weak_form two_step_params example_integrals a a)) [example_element]) 5)) =
     [2003 / 1000 + 2 * a, 2003 / 500 + 4 * a, 0, 0, 1,
      2003 / 500 + 4 * a, 2003 / 250 + 8 * a, 0, 0, 2,
      0, 0, 2003 / 1000 + 2 * a, 2003 / 500 + 4 * a, 2,
      0, 0, 2003 / 500 + 4 * a, 2003 / 250 + 8 * a, 4,
      - 1, - 2, - 2, - 4, 0]"
  by (simp add: dense_store_def upto_rec1 assemble_matrix_def main_weak_form_biforms
      asm_term_def asm_block_def
      example_element_def example_integrals_def bilinear_form_unsym_0_2_def
      bilinear_form_unsym_1_2_def bilinear_form_sym_0_0_1_1_def bilinear_form_unsym_0_0_1_1_def
      two_step_params_def source_params_def add_pair_def add_entry_apply)

lemma driven_step:
  "\<exists>s' sys. step two_step_params (spec_library two_step_params driven_services) i s = Inr s'
     \<and> dim sys = 5 \<and> xprev s' = 2 \<and> yprev s' = 2
     \<and> trace s' = trace s @ map (stamp i (TIME s + TAU two_step_params))
        (Advance # assign_calls (spec_library two_step_params driven_services) s @
          [Assemble (xprev s) (yprev s), Solve sys,
           Decode XVel 2, Decode YVel 2, Decode Press 1])"
proof -
  let ?p = two_step_params
  let ?L = "spec_library two_step_params driven_services"
  let ?after = "assign_all ?L i (s\<lparr>TIME := TIME s + TAU ?p\<rparr>)"
  have sp: "first_dof (xvel ?after) = 0" "num_dofs (xvel ?after) = 2"
    "first_dof (yvel ?after) = 2" "num_dofs (yvel ?after) = 2"
    "first_dof (press ?after) = 4" "num_dofs (press ?after) = 1"
    unfolding assign_all_spaces
    by (simp_all add: driven_services_def example_services_def)
  have n: "0 < num_dofs (xvel ?after)" "0 < num_dofs (yvel ?after)" "0 < num_dofs (press ?after)"
    using sp by simp_all
  obtain sys where a: "spec_assemble ?p driven_services (TIME s + TAU ?p)
       (xvel ?after) (yvel ?after) (press ?after) (xprev s) (yprev s) = Some sys"
    using spec_assemble_returns[OF n, where p = ?p and S = driven_services
        and t = "TIME s + TAU ?p" and xp = "xprev s" and yp = "yprev s"]
    by blast
  have a': "assemble ?L (TIME s + TAU ?p) (xvel ?after) (yvel ?after) (press ?after)
       (xprev s) (yprev s) = Some sys"
    unfolding spec_library_simps by (rule a)
  have r: "returned_vector (spsolve ?L sys) = Some [1, 1, 1, 1, 1]"
    by (simp add: driven_services_def)
  from step_returned[OF a' r] obtain s' where st: "step ?p ?L i s = Inr s'"
    and x: "xprev s' = set_fe_solution ?L XVel (xvel ?after) [1, 1, 1, 1, 1]"
    and y: "yprev s' = set_fe_solution ?L YVel (yvel ?after) [1, 1, 1, 1, 1]"
    by blast
  have dec: "\<And>f sp X. sv_decode driven_services f sp X =
      sum_list (take (nat (num_dofs sp)) (drop (nat (first_dof sp)) X))"
    by (simp add: driven_services_def example_services_def)
  have x2: "xprev s' = 2" unfolding x spec_library_simps dec sp by simp
  have y2: "yprev s' = 2" unfolding y spec_library_simps dec sp by simp
  from step_Inr_full[OF st] obtain sys' X where
    b: "assemble ?L (TIME s + TAU ?p) (xvel s') (yvel s') (press s') (xprev s) (yprev s) = Some sys'"
    and rv: "returned_vector (spsolve ?L sys') = Some X"
    and tr: "trace s' = trace s @ map (stamp i (TIME s + TAU ?p))
        (Advance # assign_calls ?L s @ [Assemble (xprev s) (yprev s), Solve sys',
           Decode XVel (xprev s'), Decode YVel (yprev s'),
           Decode Press (set_fe_solution ?L Press (press s') X)])"
    by blast
  have X: "X = [1, 1, 1, 1, 1]" using rv by (simp add: driven_services_def)
  have pr: "set_fe_solution ?L Press (press s') X = 1"
    unfolding X step_spaces[OF st] spec_library_simps dec sp by simp
  have "dim sys' = sys_dimension [xvel s', yvel s', press s']"
    using spec_assemble_dim[OF b[unfolded spec_library_simps]] by simp
  then have d: "dim sys' = 5"
    unfolding step_spaces[OF st] sys_dimension_def by (simp add: sp)
  show ?thesis
    using st d x2 y2 tr[unfolded pr x2 y2] by blast
qed


text \<open>
  Claim C4. The convective kernel of main.cpp is \<open>int_w_nabla_u_v\<close> taken at the two
  fields it is given and at the trial and the test function, and at nothing else. main
  registers it for the blocks (0, 0) and (1, 1) with the globals \<open>xprev\<close>, \<open>yprev\<close> as
  these two fields, and no other bilinear term of main reads them: the assembled matrix is
  the sum of a part that is the same for every anchor and of the two convective
  contributions at the anchor. In every run the assembly of iteration 1 is given the zero
  fields, and that of a later iteration \<open>n\<close> exactly the velocity fields decoded in
  iteration \<open>n - 1\<close> (each iteration decodes one field per space); the system handed to
  the solve of an iteration was assembled from that anchor. With the assembly of section
  4.3, matrix and right-hand side of that system are those of the weak form of main.cpp at
  this anchor: they are fixed before the solve of the iteration, and the assembly consults
  neither the solve nor the decoding, so the unknowns of the iteration occur in neither.
  A step that completes makes the fields decoded from its own solve the anchor of the next
  one.
\<close>

theorem convective_term_reads_previous_step_velocity:
  "(\<forall>e\<in>set (final_trace p L). \<forall>xp yp. ev_call e = Assemble xp yp \<longrightarrow>
      (ev_iter e = 1 \<longrightarrow> xp = set_zero L \<and> yp = set_zero L) \<and>
      (ev_iter e \<noteq> 1 \<longrightarrow>
         Decode XVel xp \<in> set (calls_in (ev_iter e - 1) (final_trace p L)) \<and>
         Decode YVel yp \<in> set (calls_in (ev_iter e - 1) (final_trace p L)))) \<and>
   (\<forall>i f u v. Decode f u \<in> set (calls_in i (final_trace p L)) \<and>
      Decode f v \<in> set (calls_in i (final_trace p L)) \<longrightarrow> u = v) \<and>
   (\<forall>e\<in>set (final_trace p L). \<forall>sys. ev_call e = Solve sys \<longrightarrow>
      (\<exists>xp yp sx sy sp. Assemble xp yp \<in> set (calls_in (ev_iter e) (final_trace p L)) \<and>
         assemble L (ev_time e) sx sy sp xp yp = Some sys)) \<and>
   (step p L i s = Inr s' \<longrightarrow>
      (\<exists>sys X. assemble L (TIME s + TAU p) (xvel s') (yvel s') (press s') (xprev s) (yprev s) = Some sys \<and>
         returned_vector (spsolve L sys) = Some X \<and>
         xprev s' = set_fe_solution L XVel (xvel s') X \<and>
         yprev s' = set_fe_solution L YVel (yvel s') X)) \<and>
   bilinear_form_unsym_0_0_1_1 I xp yp fu fv ru rv = int_w_nabla_u_v I xp yp fu fv ru rv \<and>
   filter (\<lambda>t. bf_sym t = UNSYM) (biforms (main_weak_form p I xp yp)) =
     [\<lparr>bf_i = 0, bf_j = 0, bf_fn = int_w_nabla_u_v I xp yp, bf_sym = UNSYM\<rparr>,
      \<lparr>bf_i = 1, bf_j = 1, bf_fn = int_w_nabla_u_v I xp yp, bf_sym = UNSYM\<rparr>] \<and>
   filter (\<lambda>t. bf_sym t \<noteq> UNSYM) (biforms (main_weak_form p I xp yp)) =
     filter (\<lambda>t. bf_sym t \<noteq> UNSYM) (biforms (main_weak_form p I xq yq)) \<and>
   assemble_matrix (biforms (main_weak_form p I xp yp)) els ij =
     assemble_matrix (filter (\<lambda>t. bf_sym t \<noteq> UNSYM) (biforms (main_weak_form p I xq yq))) els ij
     + term_matrix \<lparr>bf_i = 0, bf_j = 0, bf_fn = int_w_nabla_u_v I xp yp, bf_sym = UNSYM\<rparr> els ij
     + term_matrix \<lparr>bf_i = 1, bf_j = 1, bf_fn = int_w_nabla_u_v I xp yp, bf_sym = UNSYM\<rparr> els ij \<and>
   (\<forall>e\<in>set (final_trace p (spec_library p S)). \<forall>sys. ev_call e = Solve sys \<longrightarrow>
      (\<exists>xa ya sx sy sp.
         (ev_iter e = 1 \<longrightarrow> xa = sv_zero S \<and> ya = sv_zero S) \<and>
         (ev_iter e \<noteq> 1 \<longrightarrow>
            Decode XVel xa \<in> set (calls_in (ev_iter e - 1) (final_trace p (spec_library p S))) \<and>
            Decode YVel ya \<in> set (calls_in (ev_iter e - 1) (final_trace p (spec_library p S)))) \<and>
         (Ap sys, Ai sys, Ax sys) =
            sv_store S (assemble_matrix (biforms (main_weak_form p (sv_integrals S) xa ya))
              (sv_elements S sx sy sp)) (dim sys) \<and>
         rhs sys = map (assemble_rhs (liforms (main_weak_form p (sv_integrals S) xa ya))
              (sv_elements S sx sy sp)) [0 .. dim sys - 1])) \<and>
   spec_assemble p (S\<lparr>sv_solve := slv, sv_decode := dec\<rparr>) = spec_assemble p S"
proof -
  have an: "anchored L (final_trace p L)" by (rule anchored_main)
  have st: "step p L i s = Inr s' \<longrightarrow>
      (\<exists>sys X. assemble L (TIME s + TAU p) (xvel s') (yvel s') (press s') (xprev s) (yprev s) = Some sys \<and>
         returned_vector (spsolve L sys) = Some X \<and>
         xprev s' = set_fe_solution L XVel (xvel s') X \<and>
         yprev s' = set_fe_solution L YVel (yvel s') X)"
    using step_Inr[of p L i s s'] by blast
  have k: "bilinear_form_unsym_0_0_1_1 I xp yp fu fv ru rv = int_w_nabla_u_v I xp yp fu fv ru rv"
    by (simp add: bilinear_form_unsym_0_0_1_1_def)
  have o: "filter (\<lambda>t. bf_sym t \<noteq> UNSYM) (biforms (main_weak_form p I xp yp)) =
     filter (\<lambda>t. bf_sym t \<noteq> UNSYM) (biforms (main_weak_form p I xq yq))"
    unfolding other_terms ..
  let ?tr = "final_trace p (spec_library p S)"
  have run: "\<forall>e\<in>set ?tr. \<forall>sys. ev_call e = Solve sys \<longrightarrow>
      (\<exists>xa ya sx sy sp.
         (ev_iter e = 1 \<longrightarrow> xa = sv_zero S \<and> ya = sv_zero S) \<and>
         (ev_iter e \<noteq> 1 \<longrightarrow>
            Decode XVel xa \<in> set (calls_in (ev_iter e - 1) ?tr) \<and>
            Decode YVel ya \<in> set (calls_in (ev_iter e - 1) ?tr)) \<and>
         (Ap sys, Ai sys, Ax sys) =
            sv_store S (assemble_matrix (biforms (main_weak_form p (sv_integrals S) xa ya))
              (sv_elements S sx sy sp)) (dim sys) \<and>
         rhs sys = map (assemble_rhs (liforms (main_weak_form p (sv_integrals S) xa ya))
              (sv_elements S sx sy sp)) [0 .. dim sys - 1])"
  proof (intro ballI allI impI)
    fix e sys assume e: "e \<in> set ?tr" and c: "ev_call e = Solve sys"
    from anchored_solve[OF anchored_main e c, unfolded spec_library_simps]
    obtain xa ya sx sy sp where
      z: "ev_iter e = 1 \<longrightarrow> xa = sv_zero S \<and> ya = sv_zero S"
      and d: "ev_iter e \<noteq> 1 \<longrightarrow> Decode XVel xa \<in> set (calls_in (ev_iter e - 1) ?tr) \<and>
                         Decode YVel ya \<in> set (calls_in (ev_iter e - 1) ?tr)"
      and a: "spec_assemble p S (ev_time e) sx sy sp xa ya = Some sys"
      by blast
    show "\<exists>xa ya sx sy sp.
         (ev_iter e = 1 \<longrightarrow> xa = sv_zero S \<and> ya = sv_zero S) \<and>
         (ev_iter e \<noteq> 1 \<longrightarrow>
            Decode XVel xa \<in> set (calls_in (ev_iter e - 1) ?tr) \<and>
            Decode YVel ya \<in> set (calls_in (ev_iter e - 1) ?tr)) \<and>
         (Ap sys, Ai sys, Ax sys) =
            sv_store S (assemble_matrix (biforms (main_weak_form p (sv_integrals S) xa ya))
              (sv_elements S sx sy sp)) (dim sys) \<and>
         rhs sys = map (assemble_rhs (liforms (main_weak_form p (sv_integrals S) xa ya))
              (sv_elements S sx sy sp)) [0 .. dim sys - 1]"
      using z d spec_assemble_matrix(1,3)[OF a] by blast
  qed
  show ?thesis
    using an[unfolded anchored_def] st k unsym_terms[of p I xp yp] o
      matrix_split[of p I xp yp els ij xq yq] run spec_assemble_services[where p = p and S = S and slv = slv and dec = dec]
    by blast
qed


text \<open>
  C4 on a two-step run with the assembly of section 4.3 and a solve that returns the vector
  of ones: iteration 1 assembles at the zero fields, iteration 2 at the fields decoded in
  iteration 1, both equal to 2, and the matrices of the two systems differ by the
  convective contributions.
\<close>

theorem convective_term_reads_previous_step_velocity_witness:
  "(\<exists>e sys. e \<in> set (final_trace two_step_params (spec_library two_step_params driven_services))
      \<and> ev_iter e = 2 \<and> ev_call e = Solve sys
      \<and> Decode XVel 2 \<in> set (calls_in 1
            (final_trace two_step_params (spec_library two_step_params driven_services)))
      \<and> Decode YVel 2 \<in> set (calls_in 1
            (final_trace two_step_params (spec_library two_step_params driven_services)))
      \<and> Ax sys =
         [6003 / 1000, 6003 / 500, 0, 0, 1,
          6003 / 500, 6003 / 250, 0, 0, 2,
          0, 0, 6003 / 1000, 6003 / 500, 2,
          0, 0, 6003 / 500, 6003 / 250, 4,
          - 1, - 2, - 2, - 4, 0])
   \<and> (\<exists>e sys. e \<in> set (final_trace two_step_params (spec_library two_step_params driven_services))
      \<and> ev_iter e = 1 \<and> ev_call e = Solve sys \<and> sv_zero driven_services = 0
      \<and> Ax sys =
         [2003 / 1000, 2003 / 500, 0, 0, 1,
          2003 / 500, 2003 / 250, 0, 0, 2,
          0, 0, 2003 / 1000, 2003 / 500, 2,
          0, 0, 2003 / 500, 2003 / 250, 4,
          - 1, - 2, - 2, - 4, 0])
   \<and> bilinear_form_unsym_0_0_1_1 example_integrals 2 2 2 1 () () = 8"
proof -
  let ?p = two_step_params
  let ?L = "spec_library two_step_params driven_services"
  let ?init = "assign_all ?L 0 (initial_state ?p ?L)"
  let ?tr = "final_trace ?p ?L"
  note th = convective_term_reads_previous_step_velocity[where p = ?p and L = ?L and S = driven_services
      and I = example_integrals and xp = 2 and yp = 2 and fu = 2 and fv = 1 and ru = "()" and rv = "()"]
  note uniq = th[THEN conjunct2, THEN conjunct1, rule_format]
  note kernel = th[THEN conjunct2, THEN conjunct2, THEN conjunct2, THEN conjunct2, THEN conjunct1]
  note run = th[THEN conjunct2, THEN conjunct2, THEN conjunct2, THEN conjunct2, THEN conjunct2,
      THEN conjunct2, THEN conjunct2, THEN conjunct2, THEN conjunct1, rule_format]
  obtain s1 sys1 where st1: "step ?p ?L 1 ?init = Inr s1" and d1: "dim sys1 = 5"
    and tr1: "trace s1 = trace ?init @ map (stamp 1 (TIME ?init + TAU ?p))
        (Advance # assign_calls ?L ?init @ [Assemble (xprev ?init) (yprev ?init), Solve sys1,
           Decode XVel 2, Decode YVel 2, Decode Press 1])"
    using driven_step[of 1 ?init] by blast
  obtain s2 sys2 where st2: "step ?p ?L 2 s1 = Inr s2" and d2: "dim sys2 = 5"
    and tr2: "trace s2 = trace s1 @ map (stamp 2 (TIME s1 + TAU ?p))
        (Advance # assign_calls ?L s1 @ [Assemble (xprev s1) (yprev s1), Solve sys2,
           Decode XVel 2, Decode YVel 2, Decode Press 1])"
    using driven_step[of 2 s1] by blast
  have "main ?p ?L = main_loop ?p ?L 2 2 s1"
    unfolding main_def nts_two by (subst main_loop.simps) (simp add: st1)
  also have "\<dots> = main_loop ?p ?L 3 2 s2"
    by (subst main_loop.simps) (simp add: st2)
  also have "\<dots> = Inr s2" by (subst main_loop.simps) simp
  finally have tr: "?tr = trace s2" by simp
  let ?e1 = "stamp 1 (TIME ?init + TAU ?p) (Solve sys1) :: real event"
  let ?e2 = "stamp 2 (TIME s1 + TAU ?p) (Solve sys2) :: real event"
  have e1: "?e1 \<in> set ?tr" and e2: "?e2 \<in> set ?tr"
    unfolding tr tr2 tr1 by simp_all
  have dx: "Decode XVel 2 \<in> set (calls_in 1 ?tr)" and dy: "Decode YVel 2 \<in> set (calls_in 1 ?tr)"
    unfolding calls_in_iff tr tr2 tr1
    by (rule bexI[of _ "stamp 1 (TIME ?init + TAU ?p) (Decode XVel 2)"], simp add: stamp_def, simp,
        rule bexI[of _ "stamp 1 (TIME ?init + TAU ?p) (Decode YVel 2)"], simp add: stamp_def, simp)
  have sv: "sv_store driven_services = dense_store" "sv_integrals driven_services = example_integrals"
    "\<And>sx sy sp. sv_elements driven_services sx sy sp = [example_element]"
    "sv_zero driven_services = 0"
    by (simp_all add: driven_services_def example_services_def)
  have c1: "ev_call ?e1 = Solve sys1" "ev_iter ?e1 = 1" and c2: "ev_call ?e2 = Solve sys2" "ev_iter ?e2 = 2"
    by (simp_all add: stamp_def)
  from run[OF e2 c2(1)] obtain xa ya sx sy sp where
    a2: "Decode XVel xa \<in> set (calls_in (2 - 1) ?tr)" "Decode YVel ya \<in> set (calls_in (2 - 1) ?tr)"
    and m2: "(Ap sys2, Ai sys2, Ax sys2) =
            sv_store driven_services (assemble_matrix (biforms (main_weak_form ?p (sv_integrals driven_services) xa ya))
              (sv_elements driven_services sx sy sp)) (dim sys2)"
    unfolding c2(2) by auto
  have "xa = 2" "ya = 2" using uniq[of XVel xa 1 2] uniq[of YVel ya 1 2] a2 dx dy by simp_all
  then have "Ax sys2 = snd (snd (dense_store (assemble_matrix
       (biforms (main_weak_form ?p example_integrals 2 2)) [example_element]) 5))"
    using m2 unfolding sv d2 by (metis snd_conv)
  then have A2: "Ax sys2 = [6003 / 1000, 6003 / 500, 0, 0, 1,
          6003 / 500, 6003 / 250, 0, 0, 2,
          0, 0, 6003 / 1000, 6003 / 500, 2,
          0, 0, 6003 / 500, 6003 / 250, 4,
          - 1, - 2, - 2, - 4, 0]"
    unfolding driven_matrix by simp
  from run[OF e1 c1(1)] obtain xb yb sx' sy' sp' where
    a1: "xb = sv_zero driven_services" "yb = sv_zero driven_services"
    and m1: "(Ap sys1, Ai sys1, Ax sys1) =
            sv_store driven_services (assemble_matrix (biforms (main_weak_form ?p (sv_integrals driven_services) xb yb))
              (sv_elements driven_services sx' sy' sp')) (dim sys1)"
    unfolding c1(2) by auto
  have "Ax sys1 = snd (snd (dense_store (assemble_matrix
       (biforms (main_weak_form ?p example_integrals 0 0)) [example_element]) 5))"
    using m1 unfolding a1 sv d1 by (metis snd_conv)
  then have A1: "Ax sys1 = [2003 / 1000, 2003 / 500, 0, 0, 1,
          2003 / 500, 2003 / 250, 0, 0, 2,
          0, 0, 2003 / 1000, 2003 / 500, 2,
          0, 0, 2003 / 500, 2003 / 250, 4,
          - 1, - 2, - 2, - 4, 0]"
    unfolding driven_matrix by simp
  have k: "bilinear_form_unsym_0_0_1_1 example_integrals 2 2 2 1 () () = 8"
    unfolding kernel by (simp add: example_integrals_def)
  have w2: "\<exists>e sys. e \<in> set ?tr \<and> ev_iter e = 2 \<and> ev_call e = Solve sys
      \<and> Decode XVel 2 \<in> set (calls_in 1 ?tr) \<and> Decode YVel 2 \<in> set (calls_in 1 ?tr)
      \<and> Ax sys =
         [6003 / 1000, 6003 / 500, 0, 0, 1,
          6003 / 500, 6003 / 250, 0, 0, 2,
          0, 0, 6003 / 1000, 6003 / 500, 2,
          0, 0, 6003 / 500, 6003 / 250, 4,
          - 1, - 2, - 2, - 4, 0]"
    using e2 c2 dx dy A2 by (intro exI[of _ ?e2] exI[of _ sys2]) simp
  have w1: "\<exists>e sys. e \<in> set ?tr \<and> ev_iter e = 1 \<and> ev_call e = Solve sys
      \<and> sv_zero driven_services = 0
      \<and> Ax sys =
         [2003 / 1000, 2003 / 500, 0, 0, 1,
          2003 / 500, 2003 / 250, 0, 0, 2,
          0, 0, 2003 / 1000, 2003 / 500, 2,
          0, 0, 2003 / 500, 2003 / 250, 4,
          - 1, - 2, - 2, - 4, 0]"
    using e1 c1 A1 sv(4) by (intro exI[of _ ?e1] exI[of _ sys1]) simp
  show ?thesis using w2 w1 k by (intro conjI)
qed

end
